theory Spec2Isabelle
  imports Complex_Main "HOL-Library.Code_Target_Numeral"
begin

section \<open>JavaScript strings\<close>

text \<open>
  A JavaScript string is a sequence of UTF-16 code units. A code unit is a natural number
  below 65536; \<open>js\<close> turns an ASCII literal into the code units it stands for.
\<close>

type_synonym jschar = nat
type_synonym jsstring = "nat list"

definition js :: "string \<Rightarrow> jsstring" where
  "js s = map of_char s"

definition ch :: "char \<Rightarrow> jschar" where
  "ch c = of_char c"

text \<open>The character classes of the regular expressions in the lexer (none has a flag).\<close>

definition isDigit :: "jschar \<Rightarrow> bool" where
  "isDigit c = (48 \<le> c \<and> c \<le> 57)"

definition isHexDigitOrUnderscore :: "jschar \<Rightarrow> bool" where
  "isHexDigitOrUnderscore c =
     (isDigit c \<or> (97 \<le> c \<and> c \<le> 102) \<or> (65 \<le> c \<and> c \<le> 70) \<or> c = 95)"

definition isOctDigitOrUnderscore :: "jschar \<Rightarrow> bool" where
  "isOctDigitOrUnderscore c = ((48 \<le> c \<and> c \<le> 55) \<or> c = 95)"

definition isBinDigitOrUnderscore :: "jschar \<Rightarrow> bool" where
  "isBinDigitOrUnderscore c = (c = 48 \<or> c = 49 \<or> c = 95)"

definition isDigitOrUnderscore :: "jschar \<Rightarrow> bool" where
  "isDigitOrUnderscore c = (isDigit c \<or> c = 95)"

definition isDigitOrDot :: "jschar \<Rightarrow> bool" where
  "isDigitOrDot c = (isDigit c \<or> c = 46)"

definition isIdentStart :: "jschar \<Rightarrow> bool" where
  "isIdentStart c = ((97 \<le> c \<and> c \<le> 122) \<or> (65 \<le> c \<and> c \<le> 90) \<or> c = 95)"

definition isIdentChar :: "jschar \<Rightarrow> bool" where
  "isIdentChar c = (isIdentStart c \<or> isDigit c)"

section \<open>JavaScript numbers\<close>

text \<open>
  A Number is an IEEE 754 binary64 value. A finite one is kept as the rational it denotes;
  the two zeros are \<open>Fin 0\<close> and \<open>NegZero\<close>.
\<close>

datatype jsnumber = NaN | PosInf | NegInf | NegZero | Fin rat

definition ipow :: "nat \<Rightarrow> int \<Rightarrow> rat" where
  "ipow b k = (if 0 \<le> k then of_nat b ^ nat k else 1 / of_nat b ^ nat (- k))"

function numDigits :: "nat \<Rightarrow> nat \<Rightarrow> nat" where
  "numDigits b n = (if n = 0 \<or> b \<le> 1 then 0 else Suc (numDigits b (n div b)))"
  by pat_completeness auto
termination
  by (relation "measure (\<lambda>(b, n). n)") auto

declare numDigits.simps [simp del]

text \<open>The floor of the logarithm to base \<open>b\<close> of a positive rational.\<close>

definition ilog :: "nat \<Rightarrow> rat \<Rightarrow> int" where
  "ilog b a =
     (let (n, d) = quotient_of a;
          k = int (numDigits b (nat n)) - int (numDigits b (nat d))
      in if ipow b k \<le> a then k else k - 1)"

definition roundHalfEven :: "rat \<Rightarrow> int" where
  "roundHalfEven x =
     (let f = \<lfloor>x\<rfloor>; r = x - of_int f
      in if r < 1 / 2 then f else if 1 / 2 < r then f + 1 else if even f then f else f + 1)"

text \<open>
  Rounding a positive rational to the nearest binary64 value, ties to even: 53 bits of
  significand, the least exponent -1074 (subnormals), and \<open>None\<close> when the result is
  2^1024 or more (infinity).
\<close>

definition roundPos :: "rat \<Rightarrow> rat option" where
  "roundPos a =
     (let e = ilog 2 a;
          p = max (e - 52) (- 1074);
          m = roundHalfEven (a / ipow 2 p);
          r = of_int m * ipow 2 p
      in if ipow 2 1024 \<le> r then None else Some r)"

definition isInteger :: "rat \<Rightarrow> bool" where
  "isInteger q = (of_int \<lfloor>q\<rfloor> = q)"

text \<open>
  The Number nearest to a rational; \<open>neg\<close> is the sign a zero result takes. Every
  integer of magnitude at most 2^53 is a binary64 value, so it is its own rounding.
\<close>

definition toDouble :: "bool \<Rightarrow> rat \<Rightarrow> jsnumber" where
  "toDouble neg q =
     (if q = 0 then (if neg then NegZero else Fin 0)
      else if isInteger q \<and> \<bar>q\<bar> \<le> 2 ^ 53 then Fin q
      else (case roundPos \<bar>q\<bar> of
              None \<Rightarrow> (if q < 0 then NegInf else PosInf)
            | Some r \<Rightarrow>
                if r = 0 then (if q < 0 then NegZero else Fin 0)
                else Fin (if q < 0 then - r else r)))"

function decimalDigits :: "nat \<Rightarrow> jsstring" where
  "decimalDigits n = (if n < 10 then [48 + n] else decimalDigits (n div 10) @ [48 + n mod 10])"
  by pat_completeness auto
termination
  by (relation "measure (\<lambda>n. n)") auto

declare decimalDigits.simps [simp del]

text \<open>
  Number::toString, radix 10. For a positive Number \<open>v\<close> that is not an integer up to
  2^53, ECMAScript takes the least \<open>k\<close> for which some \<open>s\<close> of \<open>k\<close> digits and some
  \<open>n\<close> have \<open>s * 10^(n-k)\<close> round to \<open>v\<close>, and of those the one nearest to \<open>v\<close>.
\<close>

definition digitCandidates :: "rat \<Rightarrow> nat \<Rightarrow> (nat \<times> int) list" where
  "digitCandidates v k =
     concat (map (\<lambda>n.
        (let lo = nat \<lfloor>v / ipow 10 (n - int k)\<rfloor>
         in filter (\<lambda>(s, n'). 10 ^ (k - 1) \<le> s \<and> s < 10 ^ k
                       \<and> roundPos (of_nat s * ipow 10 (n' - int k)) = Some v)
              [(lo, n), (lo + 1, n)]))
        [ilog 10 v, ilog 10 v + 1, ilog 10 v + 2])"

definition nearer :: "rat \<Rightarrow> nat \<Rightarrow> (nat \<times> int) \<Rightarrow> (nat \<times> int) \<Rightarrow> (nat \<times> int)" where
  "nearer v k a b =
     (let da = \<bar>of_nat (fst a) * ipow 10 (snd a - int k) - v\<bar>;
          db = \<bar>of_nat (fst b) * ipow 10 (snd b - int k) - v\<bar>
      in if db < da \<or> (db = da \<and> even (fst b) \<and> odd (fst a)) then b else a)"

fun shortestDigits :: "rat \<Rightarrow> nat \<Rightarrow> nat \<Rightarrow> (nat \<times> int \<times> nat)" where
  "shortestDigits v k 0 = (0, 0, k)"
| "shortestDigits v k (Suc fuel) =
     (case digitCandidates v k of
        [] \<Rightarrow> shortestDigits v (Suc k) fuel
      | c # cs \<Rightarrow> (let (s, n) = foldl (nearer v k) c cs in (s, n, k)))"

definition formatDigits :: "nat \<Rightarrow> int \<Rightarrow> nat \<Rightarrow> jsstring" where
  "formatDigits s n k =
     (let ds = decimalDigits s in
      if - 5 \<le> n \<and> n \<le> 21 then
        (if int k \<le> n then ds @ replicate (nat (n - int k)) 48
         else if 0 < n then take (nat n) ds @ [46] @ drop (nat n) ds
         else [48, 46] @ replicate (nat (- n)) 48 @ ds)
      else
        (let e = n - 1;
             ex = (if 0 \<le> e then [43] else [45]) @ decimalDigits (nat \<bar>e\<bar>)
         in if k = 1 then ds @ [101] @ ex
            else take 1 ds @ [46] @ drop 1 ds @ [101] @ ex))"

definition positiveToString :: "rat \<Rightarrow> jsstring" where
  "positiveToString v =
     (if isInteger v \<and> v \<le> 2 ^ 53 then decimalDigits (nat \<lfloor>v\<rfloor>)
      else (let (s, n, k) = shortestDigits v 1 17 in formatDigits s n k))"

definition numberToString :: "jsnumber \<Rightarrow> jsstring" where
  "numberToString x =
     (case x of
        NaN \<Rightarrow> js ''NaN''
      | PosInf \<Rightarrow> js ''Infinity''
      | NegInf \<Rightarrow> js ''-Infinity''
      | NegZero \<Rightarrow> js ''0''
      | Fin q \<Rightarrow>
          if q = 0 then js ''0''
          else if q < 0 then 45 # positiveToString (- q)
          else positiveToString q)"

section \<open>The built-ins the converter calls\<close>

text \<open>
  The source calls \<open>String.prototype.trim\<close>, \<open>parseInt\<close>, \<open>String\<close>, \<open>Number\<close>,
  \<open>String.fromCharCode\<close> and \<open>JSON.stringify\<close>. They are part of the language, not of
  the repository; each is modelled after its definition in ECMAScript.
\<close>

text \<open>White space and line terminators, as \<open>trim\<close>, \<open>parseInt\<close> and \<open>Number\<close> skip them.\<close>

definition isStrWhiteSpace :: "jschar \<Rightarrow> bool" where
  "isStrWhiteSpace c =
     ((9 \<le> c \<and> c \<le> 13) \<or> c = 32 \<or> c = 160 \<or> c = 5760 \<or> (8192 \<le> c \<and> c \<le> 8202)
      \<or> c = 8232 \<or> c = 8233 \<or> c = 8239 \<or> c = 8287 \<or> c = 12288 \<or> c = 65279)"

definition trimStart :: "jsstring \<Rightarrow> jsstring" where
  "trimStart s = dropWhile isStrWhiteSpace s"

definition trim :: "jsstring \<Rightarrow> jsstring" where
  "trim s = rev (dropWhile isStrWhiteSpace (rev (dropWhile isStrWhiteSpace s)))"

text \<open>The value of a digit or letter as a digit of a radix up to 36; 36 for any other code unit.\<close>

definition digitVal :: "jschar \<Rightarrow> nat" where
  "digitVal c =
     (if isDigit c then c - 48
      else if 97 \<le> c \<and> c \<le> 122 then c - 87
      else if 65 \<le> c \<and> c \<le> 90 then c - 55
      else 36)"

definition digitsValue :: "nat \<Rightarrow> jsstring \<Rightarrow> nat" where
  "digitsValue radix ds = foldl (\<lambda>acc d. acc * radix + digitVal d) 0 ds"

text \<open>
  \<open>parseInt(string, radix)\<close>: leading white space and a sign are skipped, radix 16 (and
  radix 0, which otherwise means 10) also skips a prefix \<open>0x\<close>, and the longest run of
  digits of the radix is read; no digit, or a radix outside 2 to 36, gives \<open>NaN\<close>.
\<close>

definition parseInt :: "jsstring \<Rightarrow> nat \<Rightarrow> jsnumber" where
  "parseInt string radix =
     (let s0 = trimStart string;
          neg = (s0 \<noteq> [] \<and> hd s0 = 45);
          s1 = (if s0 \<noteq> [] \<and> (hd s0 = 43 \<or> hd s0 = 45) then tl s0 else s0);
          prefixed = ((radix = 0 \<or> radix = 16) \<and> 2 \<le> length s1 \<and> hd s1 = 48
                      \<and> (s1 ! 1 = 120 \<or> s1 ! 1 = 88));
          r = (if prefixed then 16 else if radix = 0 then 10 else radix);
          s2 = (if prefixed then drop 2 s1 else s1);
          z = takeWhile (\<lambda>c. digitVal c < r) s2
      in if radix \<noteq> 0 \<and> (radix < 2 \<or> 36 < radix) then NaN
         else if z = [] then NaN
         else toDouble neg ((if neg then - 1 else 1) * of_nat (digitsValue r z)))"

text \<open>\<open>String.fromCharCode(x)\<close>: the one code unit \<open>ToUint16(x)\<close>.\<close>

definition toUint16 :: "jsnumber \<Rightarrow> nat" where
  "toUint16 x =
     (case x of
        Fin q \<Rightarrow> nat ((if 0 \<le> q then \<lfloor>q\<rfloor> else - \<lfloor>- q\<rfloor>) mod 65536)
      | _ \<Rightarrow> 0)"

definition fromCharCode :: "jsnumber \<Rightarrow> jsstring" where
  "fromCharCode x = [toUint16 x]"

text \<open>
  \<open>Number(text)\<close>: the text, trimmed, is empty (zero), a hexadecimal, octal or binary
  integer literal, or a signed decimal literal or \<open>Infinity\<close>; anything else is \<open>NaN\<close>.
\<close>

definition strExponent :: "jsstring \<Rightarrow> int option" where
  "strExponent r =
     (case r of
        [] \<Rightarrow> Some 0
      | c # t \<Rightarrow>
          if c = 101 \<or> c = 69 then
            (let neg = (t \<noteq> [] \<and> hd t = 45);
                 d = (if t \<noteq> [] \<and> (hd t = 43 \<or> hd t = 45) then tl t else t)
             in if d \<noteq> [] \<and> list_all isDigit d
                then Some ((if neg then - 1 else 1) * int (digitsValue 10 d))
                else None)
          else None)"

definition strUnsignedDecimal :: "jsstring \<Rightarrow> rat option" where
  "strUnsignedDecimal s =
     (let ip = takeWhile isDigit s;
          r1 = dropWhile isDigit s;
          fp = (if r1 \<noteq> [] \<and> hd r1 = 46 then takeWhile isDigit (tl r1) else []);
          r2 = (if r1 \<noteq> [] \<and> hd r1 = 46 then dropWhile isDigit (tl r1) else r1)
      in if ip = [] \<and> fp = [] then None
         else (case strExponent r2 of
                 None \<Rightarrow> None
               | Some ex \<Rightarrow>
                   Some (of_nat (digitsValue 10 (ip @ fp)) * ipow 10 (ex - int (length fp)))))"

definition nonDecimalLiteral :: "jsstring \<Rightarrow> jsnumber option" where
  "nonDecimalLiteral t =
     (if 2 \<le> length t \<and> hd t = 48 \<and> t ! 1 \<in> {120, 88, 111, 79, 98, 66} then
        (let radix = (if t ! 1 = 120 \<or> t ! 1 = 88 then 16 else if t ! 1 = 111 \<or> t ! 1 = 79 then 8 else 2);
             ds = drop 2 t
         in if ds \<noteq> [] \<and> list_all (\<lambda>c. digitVal c < radix) ds
            then Some (toDouble False (of_nat (digitsValue radix ds)))
            else Some NaN)
      else None)"

definition stringToNumber :: "jsstring \<Rightarrow> jsnumber" where
  "stringToNumber s =
     (let t = trim s in
      if t = [] then Fin 0
      else (case nonDecimalLiteral t of
              Some x \<Rightarrow> x
            | None \<Rightarrow>
                (let neg = (hd t = 45);
                     u = (if hd t = 43 \<or> hd t = 45 then tl t else t)
                 in if u = js ''Infinity'' then (if neg then NegInf else PosInf)
                    else (case strUnsignedDecimal u of
                            None \<Rightarrow> NaN
                          | Some q \<Rightarrow> toDouble neg (if neg then - q else q)))))"

definition isNaN :: "jsnumber \<Rightarrow> bool" where
  "isNaN x = (x = NaN)"

section \<open>Tokens and errors\<close>

datatype TokenType =
  STRING | NUMBER | TRUE | FALSE | NONE
  | LBRACE | RBRACE | LBRACKET | RBRACKET | LPAREN | RPAREN | COLON | COMMA | EOF

record Token =
  tokType :: TokenType
  tokValue :: jsstring
  tokPos :: nat

text \<open>
  Every \<open>throw new Error(...)\<close> of the source is one constructor, with the values its
  message shows. \<open>TokenOutOfRange\<close> is the TypeError of reading \<open>.type\<close> of
  \<open>this.tokens[this.pos]\<close> past the end of the array.
\<close>

datatype error =
  UnterminatedTripleQuotedString nat
  | UnterminatedString nat
  | UnexpectedEndInEscape
  | UnexpectedEndInUnicodeEscape
  | UnexpectedEndInHexEscape
  | InvalidNumber nat
  | UnexpectedCharacter jschar nat
  | ExpectedToken TokenType Token
  | UnexpectedToken Token
  | InvalidNumberToken jsstring nat
  | InvalidDictKey Token
  | EmptyInput
  | TokenOutOfRange

section \<open>The lexer\<close>

text \<open>
  \<open>PythonDictLexer\<close> holds the input and a position \<open>pos\<close>; every method below takes the
  input and the position and returns the new position with its result.
\<close>

definition peek :: "jsstring \<Rightarrow> nat \<Rightarrow> jschar option" where
  "peek inp pos = (if pos < length inp then Some (inp ! pos) else None)"

text \<open>The inner loop of \<open>skipWhitespaceAndComments\<close>: a comment runs up to the line feed.\<close>

function skipComment :: "jsstring \<Rightarrow> nat \<Rightarrow> nat" where
  "skipComment inp pos =
     (if pos < length inp \<and> inp ! pos \<noteq> 10 then skipComment inp (pos + 1) else pos)"
  by pat_completeness auto
termination
  by (relation "measure (\<lambda>(inp, pos). length inp - pos)") auto

declare skipComment.simps [simp del]

lemma skipComment_le: "pos \<le> skipComment inp pos"
proof (induction inp pos rule: skipComment.induct)
  case (1 inp pos)
  show ?case
  proof (cases "pos < length inp \<and> inp ! pos \<noteq> 10")
    case True
    with "1.IH" have "pos + 1 \<le> skipComment inp (pos + 1)" by simp
    moreover from True have "skipComment inp pos = skipComment inp (pos + 1)"
      by (subst skipComment.simps) simp
    ultimately show ?thesis by simp
  next
    case False
    then have "skipComment inp pos = pos"
      by (subst skipComment.simps) auto
    then show ?thesis by simp
  qed
qed

lemma skipComment_progress:
  "pos < length inp \<Longrightarrow> inp ! pos \<noteq> 10 \<Longrightarrow> pos < skipComment inp pos"
proof -
  assume "pos < length inp" and "inp ! pos \<noteq> 10"
  then have "skipComment inp pos = skipComment inp (pos + 1)"
    by (subst skipComment.simps) simp
  with skipComment_le [of "pos + 1" inp] show ?thesis by simp
qed

function skipWhitespaceAndComments :: "jsstring \<Rightarrow> nat \<Rightarrow> nat" where
  "skipWhitespaceAndComments inp pos =
     (if pos < length inp then
        (if inp ! pos = 32 \<or> inp ! pos = 9 \<or> inp ! pos = 10 \<or> inp ! pos = 13
         then skipWhitespaceAndComments inp (pos + 1)
         else if inp ! pos = 35 then skipWhitespaceAndComments inp (skipComment inp pos)
         else pos)
      else pos)"
  by pat_completeness auto
termination
proof (relation "measure (\<lambda>(inp, pos). length inp - pos)")
  fix inp :: jsstring and pos :: nat
  assume "pos < length inp" and "inp ! pos = 35"
  then have "pos < skipComment inp pos"
    by (simp add: skipComment_progress)
  with \<open>pos < length inp\<close>
  show "((inp, skipComment inp pos), (inp, pos)) \<in> measure (\<lambda>(inp, pos). length inp - pos)"
    by simp
qed auto

declare skipWhitespaceAndComments.simps [simp del]

text \<open>The four (or two) characters after \<open>\u\<close> (or \<open>\x\<close>); \<open>None\<close> when the input ends first.\<close>

fun readHexChars :: "nat \<Rightarrow> jsstring \<Rightarrow> nat \<Rightarrow> jsstring \<Rightarrow> (jsstring \<times> nat) option" where
  "readHexChars 0 inp pos hex = Some (hex, pos)"
| "readHexChars (Suc i) inp pos hex =
     (if length inp \<le> pos then None else readHexChars i inp (pos + 1) (hex @ [inp ! pos]))"

definition readEscapeSequence :: "jsstring \<Rightarrow> jschar \<Rightarrow> nat \<Rightarrow> error + (jsstring \<times> nat)" where
  "readEscapeSequence inp quote pos =
     (if length inp \<le> pos + 1 then Inl UnexpectedEndInEscape
      else
        (let c = inp ! (pos + 1); p = pos + 2 in
         if c = 92 then Inr ([92], p)
         else if c = 47 then Inr ([47], p)
         else if c = 110 then Inr ([10], p)
         else if c = 114 then Inr ([13], p)
         else if c = 116 then Inr ([9], p)
         else if c = 98 then Inr ([8], p)
         else if c = 102 then Inr ([12], p)
         else if c = 39 then Inr ([39], p)
         else if c = 34 then Inr ([34], p)
         else if c = 48 then Inr ([0], p)
         else if c = 117 then
           (case readHexChars 4 inp p [] of
              None \<Rightarrow> Inl UnexpectedEndInUnicodeEscape
            | Some (hex, p') \<Rightarrow> Inr (fromCharCode (parseInt hex 16), p'))
         else if c = 120 then
           (case readHexChars 2 inp p [] of
              None \<Rightarrow> Inl UnexpectedEndInHexEscape
            | Some (hex, p') \<Rightarrow> Inr (fromCharCode (parseInt hex 16), p'))
         else Inr ([c], p)))"

lemma readHexChars_pos: "readHexChars n inp pos hex = Some (h, p) \<Longrightarrow> p = pos + n"
proof (induction n arbitrary: pos hex)
  case 0
  then show ?case by simp
next
  case (Suc n)
  from Suc.prems have "readHexChars n inp (pos + 1) (hex @ [inp ! pos]) = Some (h, p)"
    by (simp split: if_splits)
  from Suc.IH [OF this] show ?case by simp
qed

lemma readEscapeSequence_progress:
  "readEscapeSequence inp quote pos = Inr (s, p) \<Longrightarrow> pos < p"
  by (auto simp: readEscapeSequence_def Let_def split: if_splits option.splits
      dest: readHexChars_pos)

function readTripleLoop :: "jsstring \<Rightarrow> jschar \<Rightarrow> nat \<Rightarrow> nat \<Rightarrow> jsstring \<Rightarrow> error + (jsstring \<times> nat)" where
  "readTripleLoop inp quote startPos pos result =
     (if pos < length inp then
        (if inp ! pos = quote \<and> pos + 2 < length inp \<and> inp ! (pos + 1) = quote
            \<and> inp ! (pos + 2) = quote
         then Inr (result, pos + 3)
         else if inp ! pos = 92 then
           (case readEscapeSequence inp quote pos of
              Inl e \<Rightarrow> Inl e
            | Inr (s, p) \<Rightarrow> readTripleLoop inp quote startPos p (result @ s))
         else readTripleLoop inp quote startPos (pos + 1) (result @ [inp ! pos]))
      else Inl (UnterminatedTripleQuotedString startPos))"
  by pat_completeness auto
termination
  by (relation "measure (\<lambda>(inp, quote, startPos, pos, result). length inp - pos)")
    (auto dest: readEscapeSequence_progress)

declare readTripleLoop.simps [simp del]

function readStringLoop :: "jsstring \<Rightarrow> jschar \<Rightarrow> nat \<Rightarrow> nat \<Rightarrow> jsstring \<Rightarrow> error + (jsstring \<times> nat)" where
  "readStringLoop inp quote startPos pos result =
     (if pos < length inp then
        (if inp ! pos = quote then Inr (result, pos + 1)
         else if inp ! pos = 92 then
           (case readEscapeSequence inp quote pos of
              Inl e \<Rightarrow> Inl e
            | Inr (s, p) \<Rightarrow> readStringLoop inp quote startPos p (result @ s))
         else readStringLoop inp quote startPos (pos + 1) (result @ [inp ! pos]))
      else Inl (UnterminatedString startPos))"
  by pat_completeness auto
termination
  by (relation "measure (\<lambda>(inp, quote, startPos, pos, result). length inp - pos)")
    (auto dest: readEscapeSequence_progress)

declare readStringLoop.simps [simp del]

text \<open>\<open>readString\<close> starts after the opening quote, which the caller has consumed.\<close>

definition readString :: "jsstring \<Rightarrow> jschar \<Rightarrow> nat \<Rightarrow> error + (jsstring \<times> nat)" where
  "readString inp quote pos =
     (let startPos = pos in
      if pos + 2 < length inp \<and> inp ! pos = quote \<and> inp ! (pos + 1) = quote
      then readTripleLoop inp quote startPos (pos + 2) []
      else readStringLoop inp quote startPos pos [])"

text \<open>
  The digit loops of \<open>readNumber\<close> and the loop of \<open>readIdentifier\<close>: while the character
  at \<open>pos\<close> is in the class, consume it, and append it unless \<open>skip\<close> holds of it.
\<close>

function readWhile :: "(jschar \<Rightarrow> bool) \<Rightarrow> (jschar \<Rightarrow> bool) \<Rightarrow> jsstring \<Rightarrow> nat \<Rightarrow> jsstring \<Rightarrow> jsstring \<times> nat" where
  "readWhile cls skip inp pos result =
     (if pos < length inp \<and> cls (inp ! pos)
      then readWhile cls skip inp (pos + 1) (if skip (inp ! pos) then result else result @ [inp ! pos])
      else (result, pos))"
  by pat_completeness auto
termination
  by (relation "measure (\<lambda>(cls, skip, inp, pos, result). length inp - pos)") auto

declare readWhile.simps [simp del]

definition isUnderscore :: "jschar \<Rightarrow> bool" where
  "isUnderscore c = (c = 95)"

text \<open>
  \<open>readNumber\<close> in its parts, as the comments of the source divide it: the decimal point
  and the exponent; then the digits, the decimal point, the exponent and the final check,
  which every literal without a base prefix runs through.
\<close>

definition readDecimalPoint :: "jsstring \<Rightarrow> jsstring \<Rightarrow> nat \<Rightarrow> jsstring \<times> nat" where
  "readDecimalPoint inp result pos =
     (if peek inp pos = Some 46 \<and> pos + 1 < length inp \<and> isDigit (inp ! (pos + 1))
      then readWhile isDigitOrUnderscore isUnderscore inp (pos + 1) (result @ [46])
      else (result, pos))"

definition readExponent :: "jsstring \<Rightarrow> jsstring \<Rightarrow> nat \<Rightarrow> jsstring \<times> nat" where
  "readExponent inp result pos =
     (if peek inp pos = Some 101 \<or> peek inp pos = Some 69 then
        (if peek inp (pos + 1) = Some 43 \<or> peek inp (pos + 1) = Some 45
         then readWhile isDigitOrUnderscore isUnderscore inp (pos + 2)
                (result @ [inp ! pos] @ [inp ! (pos + 1)])
         else readWhile isDigitOrUnderscore isUnderscore inp (pos + 1) (result @ [inp ! pos]))
      else (result, pos))"

definition readDecimal :: "jsstring \<Rightarrow> nat \<Rightarrow> jsstring \<Rightarrow> nat \<Rightarrow> error + (jsstring \<times> nat)" where
  "readDecimal inp start result pos =
     (let (r3, p3) = readWhile isDigitOrUnderscore isUnderscore inp pos result;
          (r4, p4) = readDecimalPoint inp r3 p3;
          (r5, p5) = readExponent inp r4 p4
      in if r5 = [] \<or> r5 = [45] then Inl (InvalidNumber start) else Inr (r5, p5))"

definition readNumber :: "jsstring \<Rightarrow> nat \<Rightarrow> error + (jsstring \<times> nat)" where
  "readNumber inp pos =
     (let start = pos;
          (r1, p1) = (if peek inp pos = Some 45 then ([45], pos + 1) else ([], pos))
      in if peek inp p1 = Some 48 then
           (let r2 = r1 @ [48]; p2 = p1 + 1 in
            if peek inp p2 = Some 120 \<or> peek inp p2 = Some 88 then
              (let (hex, p) = readWhile isHexDigitOrUnderscore isUnderscore inp (p2 + 1) []
               in Inr (numberToString (parseInt hex 16), p))
            else if peek inp p2 = Some 111 \<or> peek inp p2 = Some 79 then
              (let (oct, p) = readWhile isOctDigitOrUnderscore isUnderscore inp (p2 + 1) []
               in Inr (numberToString (parseInt oct 8), p))
            else if peek inp p2 = Some 98 \<or> peek inp p2 = Some 66 then
              (let (bin, p) = readWhile isBinDigitOrUnderscore isUnderscore inp (p2 + 1) []
               in Inr (numberToString (parseInt bin 2), p))
            else readDecimal inp start r2 p2)
         else readDecimal inp start r1 p1)"

definition readIdentifier :: "jsstring \<Rightarrow> nat \<Rightarrow> jsstring \<times> nat" where
  "readIdentifier inp pos = readWhile isIdentChar (\<lambda>c. False) inp pos []"

definition mkToken :: "TokenType \<Rightarrow> jsstring \<Rightarrow> nat \<Rightarrow> Token" where
  "mkToken t v p = \<lparr>tokType = t, tokValue = v, tokPos = p\<rparr>"

text \<open>
  One round of the \<open>switch\<close> in \<open>tokenize\<close>, at a position \<open>pos\<close> inside the input:
  the token pushed and the position after it.
\<close>

definition tokenizeStep :: "jsstring \<Rightarrow> nat \<Rightarrow> error + (Token \<times> nat)" where
  "tokenizeStep inp pos =
     (let startPos = pos; c = inp ! pos in
      if c = 123 then Inr (mkToken LBRACE [123] startPos, pos + 1)
      else if c = 125 then Inr (mkToken RBRACE [125] startPos, pos + 1)
      else if c = 91 then Inr (mkToken LBRACKET [91] startPos, pos + 1)
      else if c = 93 then Inr (mkToken RBRACKET [93] startPos, pos + 1)
      else if c = 40 then Inr (mkToken LPAREN [40] startPos, pos + 1)
      else if c = 41 then Inr (mkToken RPAREN [41] startPos, pos + 1)
      else if c = 58 then Inr (mkToken COLON [58] startPos, pos + 1)
      else if c = 44 then Inr (mkToken COMMA [44] startPos, pos + 1)
      else if c = 39 \<or> c = 34 then
        (case readString inp c (pos + 1) of
           Inl e \<Rightarrow> Inl e
         | Inr (str, p) \<Rightarrow> Inr (mkToken STRING str startPos, p))
      else if c = 45 \<or> isDigit c then
        (if c = 45 then
           (if pos + 1 < length inp \<and> isDigitOrDot (inp ! (pos + 1)) then
              (case readNumber inp pos of
                 Inl e \<Rightarrow> Inl e
               | Inr (num, p) \<Rightarrow> Inr (mkToken NUMBER num startPos, p))
            else Inl (UnexpectedCharacter 45 startPos))
         else
           (case readNumber inp pos of
              Inl e \<Rightarrow> Inl e
            | Inr (num, p) \<Rightarrow> Inr (mkToken NUMBER num startPos, p)))
      else if isIdentStart c then
        (let (ident, p) = readIdentifier inp pos in
         if ident = js ''True'' then Inr (mkToken TRUE (js ''true'') startPos, p)
         else if ident = js ''False'' then Inr (mkToken FALSE (js ''false'') startPos, p)
         else if ident = js ''None'' then Inr (mkToken NONE (js ''null'') startPos, p)
         else if ident = js ''true'' then Inr (mkToken TRUE (js ''true'') startPos, p)
         else if ident = js ''false'' then Inr (mkToken FALSE (js ''false'') startPos, p)
         else if ident = js ''null'' then Inr (mkToken NONE (js ''null'') startPos, p)
         else Inr (mkToken STRING ident startPos, p))
      else Inl (UnexpectedCharacter c startPos))"

lemma readWhile_le: "pos \<le> snd (readWhile cls skip inp pos result)"
proof (induction cls skip inp pos result rule: readWhile.induct)
  case (1 cls skip inp pos result)
  show ?case
  proof (cases "pos < length inp \<and> cls (inp ! pos)")
    case True
    then have "readWhile cls skip inp pos result =
        readWhile cls skip inp (pos + 1) (if skip (inp ! pos) then result else result @ [inp ! pos])"
      by (subst readWhile.simps) simp
    moreover from True "1.IH"
    have "pos + 1 \<le> snd (readWhile cls skip inp (pos + 1)
        (if skip (inp ! pos) then result else result @ [inp ! pos]))"
      by blast
    ultimately show ?thesis by simp
  next
    case False
    then have "readWhile cls skip inp pos result = (result, pos)"
      by (subst readWhile.simps) auto
    then show ?thesis by simp
  qed
qed

lemma readWhile_le': "readWhile cls skip inp pos result = (r, p) \<Longrightarrow> pos \<le> p"
  using readWhile_le [of pos cls skip inp result] by simp

lemma readWhile_progress:
  assumes "pos < length inp" and "cls (inp ! pos)"
    and "readWhile cls skip inp pos result = (r, p)"
  shows "pos < p"
proof -
  from assms(1,2) have "readWhile cls skip inp pos result =
      readWhile cls skip inp (pos + 1) (if skip (inp ! pos) then result else result @ [inp ! pos])"
    by (subst readWhile.simps) simp
  with assms(3) have "readWhile cls skip inp (pos + 1)
      (if skip (inp ! pos) then result else result @ [inp ! pos]) = (r, p)"
    by simp
  from readWhile_le' [OF this] show ?thesis by simp
qed

lemma readTripleLoop_le:
  "readTripleLoop inp quote startPos pos result = Inr (s, p) \<Longrightarrow> pos \<le> p"
proof (induction inp quote startPos pos result rule: readTripleLoop.induct)
  case (1 inp quote startPos pos result)
  note eq = readTripleLoop.simps [of inp quote startPos pos result]
  show ?case
  proof (cases "pos < length inp")
    case False
    with "1.prems" eq show ?thesis by simp
  next
    case inside: True
    show ?thesis
    proof (cases "inp ! pos = quote \<and> pos + 2 < length inp \<and> inp ! (pos + 1) = quote
        \<and> inp ! (pos + 2) = quote")
      case True
      with inside "1.prems" eq show ?thesis by simp
    next
      case noclose: False
      show ?thesis
      proof (cases "inp ! pos = 92")
        case True
        have step: "readTripleLoop inp quote startPos pos result =
            (case readEscapeSequence inp quote pos of
               Inl e \<Rightarrow> Inl e
             | Inr (s, p) \<Rightarrow> readTripleLoop inp quote startPos p (result @ s))"
          by (subst eq, subst if_P [OF inside], subst if_not_P [OF noclose],
              subst if_P [OF True], rule refl)
        from "1.prems" step obtain s' p' where
          esc: "readEscapeSequence inp quote pos = Inr (s', p')" and
          rest: "readTripleLoop inp quote startPos p' (result @ s') = Inr (s, p)"
          by (cases "readEscapeSequence inp quote pos") auto
        from "1.IH"(1) [OF inside noclose True esc refl rest] have "p' \<le> p" .
        with readEscapeSequence_progress [OF esc] show ?thesis by simp
      next
        case False
        have "readTripleLoop inp quote startPos pos result =
            readTripleLoop inp quote startPos (pos + 1) (result @ [inp ! pos])"
          by (subst eq, subst if_P [OF inside], subst if_not_P [OF noclose],
              subst if_not_P [OF False], rule refl)
        with "1.prems"
        have rest: "readTripleLoop inp quote startPos (pos + 1) (result @ [inp ! pos]) = Inr (s, p)"
          by simp
        from "1.IH"(2) [OF inside noclose False rest] show ?thesis by simp
      qed
    qed
  qed
qed

lemma readStringLoop_le:
  "readStringLoop inp quote startPos pos result = Inr (s, p) \<Longrightarrow> pos \<le> p"
proof (induction inp quote startPos pos result rule: readStringLoop.induct)
  case (1 inp quote startPos pos result)
  note eq = readStringLoop.simps [of inp quote startPos pos result]
  show ?case
  proof (cases "pos < length inp")
    case False
    with "1.prems" eq show ?thesis by simp
  next
    case inside: True
    show ?thesis
    proof (cases "inp ! pos = quote")
      case True
      with inside "1.prems" eq show ?thesis by simp
    next
      case noclose: False
      show ?thesis
      proof (cases "inp ! pos = 92")
        case True
        have step: "readStringLoop inp quote startPos pos result =
            (case readEscapeSequence inp quote pos of
               Inl e \<Rightarrow> Inl e
             | Inr (s, p) \<Rightarrow> readStringLoop inp quote startPos p (result @ s))"
          by (subst eq, subst if_P [OF inside], subst if_not_P [OF noclose],
              subst if_P [OF True], rule refl)
        from "1.prems" step obtain s' p' where
          esc: "readEscapeSequence inp quote pos = Inr (s', p')" and
          rest: "readStringLoop inp quote startPos p' (result @ s') = Inr (s, p)"
          by (cases "readEscapeSequence inp quote pos") auto
        from "1.IH"(1) [OF inside noclose True esc refl rest] have "p' \<le> p" .
        with readEscapeSequence_progress [OF esc] show ?thesis by simp
      next
        case False
        have "readStringLoop inp quote startPos pos result =
            readStringLoop inp quote startPos (pos + 1) (result @ [inp ! pos])"
          by (subst eq, subst if_P [OF inside], subst if_not_P [OF noclose],
              subst if_not_P [OF False], rule refl)
        with "1.prems"
        have rest: "readStringLoop inp quote startPos (pos + 1) (result @ [inp ! pos]) = Inr (s, p)"
          by simp
        from "1.IH"(2) [OF inside noclose False rest] show ?thesis by simp
      qed
    qed
  qed
qed

lemma readString_le: "readString inp quote pos = Inr (s, p) \<Longrightarrow> pos \<le> p"
  by (auto simp: readString_def Let_def split: if_splits
      dest: readTripleLoop_le readStringLoop_le)

lemma peek_Some: "pos < length inp \<Longrightarrow> peek inp pos = Some (inp ! pos)"
  by (simp add: peek_def)

lemma readDecimalPoint_le: "readDecimalPoint inp r pos = (r', p) \<Longrightarrow> pos \<le> p"
  by (auto simp: readDecimalPoint_def split: if_splits dest!: readWhile_le')

lemma readExponent_le: "readExponent inp r pos = (r', p) \<Longrightarrow> pos \<le> p"
  by (auto simp: readExponent_def split: if_splits dest!: readWhile_le')

lemma readDecimal_le:
  assumes "readDecimal inp start r pos = Inr (num, p)"
  shows "pos \<le> p"
proof -
  obtain r3 p3 where a: "readWhile isDigitOrUnderscore isUnderscore inp pos r = (r3, p3)"
    by (cases "readWhile isDigitOrUnderscore isUnderscore inp pos r")
  obtain r4 p4 where b: "readDecimalPoint inp r3 p3 = (r4, p4)"
    by (cases "readDecimalPoint inp r3 p3")
  obtain r5 p5 where c: "readExponent inp r4 p4 = (r5, p5)"
    by (cases "readExponent inp r4 p4")
  from assms a b c have "p = p5"
    by (simp add: readDecimal_def split: if_splits)
  with readWhile_le' [OF a] readDecimalPoint_le [OF b] readExponent_le [OF c]
  show ?thesis by simp
qed

lemma readDecimal_progress:
  assumes "pos < length inp" and "isDigitOrUnderscore (inp ! pos)"
    and "readDecimal inp start r pos = Inr (num, p)"
  shows "pos < p"
proof -
  obtain r3 p3 where a: "readWhile isDigitOrUnderscore isUnderscore inp pos r = (r3, p3)"
    by (cases "readWhile isDigitOrUnderscore isUnderscore inp pos r")
  obtain r4 p4 where b: "readDecimalPoint inp r3 p3 = (r4, p4)"
    by (cases "readDecimalPoint inp r3 p3")
  obtain r5 p5 where c: "readExponent inp r4 p4 = (r5, p5)"
    by (cases "readExponent inp r4 p4")
  from assms(3) a b c have "p = p5"
    by (simp add: readDecimal_def split: if_splits)
  with readWhile_progress [OF assms(1,2) a] readDecimalPoint_le [OF b] readExponent_le [OF c]
  show ?thesis by simp
qed

lemma readNumber_progress:
  assumes "pos < length inp" and "inp ! pos = 45 \<or> isDigit (inp ! pos)"
    and "readNumber inp pos = Inr (num, p)"
  shows "pos < p"
proof (cases "inp ! pos = 45 \<or> inp ! pos = 48")
  case True
  with assms(1,3) show ?thesis
    unfolding readNumber_def Let_def
    by (auto simp: peek_Some split: if_splits prod.splits dest!: readWhile_le' readDecimal_le)
next
  case False
  with assms(2) have d: "isDigitOrUnderscore (inp ! pos)" by (simp add: isDigitOrUnderscore_def)
  from False assms(1,3) have "readDecimal inp pos [] pos = Inr (num, p)"
    unfolding readNumber_def Let_def by (simp add: peek_Some)
  from readDecimal_progress [OF assms(1) d this] show ?thesis .
qed

lemma readIdentifier_progress:
  "pos < length inp \<Longrightarrow> isIdentStart (inp ! pos) \<Longrightarrow> readIdentifier inp pos = (ident, p) \<Longrightarrow> pos < p"
  unfolding readIdentifier_def
  by (rule readWhile_progress [where cls = isIdentChar]) (auto simp: isIdentChar_def)

lemma tokenizeStep_progress:
  assumes "pos < length inp" and "tokenizeStep inp pos = Inr (tok, p)"
  shows "pos < p"
proof -
  have num: "pos < p'" if "readNumber inp pos = Inr (n, p')"
      and "inp ! pos = 45 \<or> isDigit (inp ! pos)" for n p'
    using readNumber_progress [OF assms(1) that(2) that(1)] .
  have ident: "pos < p'" if "readIdentifier inp pos = (i, p')"
      and "isIdentStart (inp ! pos)" for i p'
    using readIdentifier_progress [OF assms(1) that(2) that(1)] .
  from assms(2) show ?thesis
    unfolding tokenizeStep_def Let_def
    by (auto split: if_splits sum.splits prod.splits dest!: readString_le dest: num ident)
qed

function tokenizeLoop :: "jsstring \<Rightarrow> nat \<Rightarrow> Token list \<Rightarrow> error + Token list" where
  "tokenizeLoop inp pos tokens =
     (let p = skipWhitespaceAndComments inp pos in
      if length inp \<le> p then Inr (tokens @ [mkToken EOF [] p])
      else (case tokenizeStep inp p of
              Inl e \<Rightarrow> Inl e
            | Inr (tok, p') \<Rightarrow> tokenizeLoop inp p' (tokens @ [tok])))"
  by pat_completeness auto

lemma skipWhitespaceAndComments_le: "pos \<le> skipWhitespaceAndComments inp pos"
proof (induction inp pos rule: skipWhitespaceAndComments.induct)
  case (1 inp pos)
  note eq = skipWhitespaceAndComments.simps [of inp pos]
  show ?case
  proof (cases "pos < length inp")
    case False
    with eq show ?thesis by simp
  next
    case inside: True
    show ?thesis
    proof (cases "inp ! pos = 32 \<or> inp ! pos = 9 \<or> inp ! pos = 10 \<or> inp ! pos = 13")
      case True
      from "1.IH"(1) [OF inside True] eq inside True show ?thesis by simp
    next
      case nows: False
      show ?thesis
      proof (cases "inp ! pos = 35")
        case True
        from "1.IH"(2) [OF inside nows True] skipComment_le [of pos inp] eq inside nows True
        show ?thesis by simp
      next
        case False
        with eq inside nows show ?thesis by simp
      qed
    qed
  qed
qed

termination tokenizeLoop
proof (relation "measure (\<lambda>(inp, pos, tokens). length inp - pos)")
  fix inp :: jsstring and pos :: nat and tokens :: "Token list" and p x2 tok p'
  assume "p = skipWhitespaceAndComments inp pos" and "\<not> length inp \<le> p"
    and "tokenizeStep inp p = Inr x2" and "(tok, p') = x2"
  then have "p < length inp" and "tokenizeStep inp p = Inr (tok, p')" by simp_all
  from tokenizeStep_progress [OF this] have "p < p'" .
  moreover from \<open>p = skipWhitespaceAndComments inp pos\<close> have "pos \<le> p"
    by (simp add: skipWhitespaceAndComments_le)
  ultimately show "((inp, p', tokens @ [tok]), (inp, pos, tokens))
      \<in> measure (\<lambda>(inp, pos, tokens). length inp - pos)"
    using \<open>p < length inp\<close> by simp
qed simp

declare tokenizeLoop.simps [simp del]

definition tokenize :: "jsstring \<Rightarrow> error + Token list" where
  "tokenize inp = tokenizeLoop inp 0 []"

section \<open>Values\<close>

text \<open>
  What the parser returns: \<open>null\<close>, a boolean, a Number, a string, an array, or a plain
  object. Of an object the model keeps what the converter can observe:
  \<^item> its own properties, in the order in which \<open>OrdinaryOwnPropertyKeys\<close> lists them: array indices
    first, in ascending numeric order, then the other keys in the order they were created;
  \<^item> whether an assignment to the key \<open>__proto__\<close> that finds no own property of that name
    reaches the accessor \<open>Object.prototype.__proto__\<close> through the prototype chain, as it
    does for a fresh \<open>{}\<close>.
\<close>

datatype jsvalue =
  JNull
  | JBool bool
  | JNumber jsnumber
  | JString jsstring
  | JArray "jsvalue list"
  | JObject bool "(jsstring \<times> jsvalue) list"

type_synonym jsobject = "bool \<times> (jsstring \<times> jsvalue) list"

definition emptyObject :: jsobject where
  "emptyObject = (True, [])"

definition protoKey :: jsstring where
  "protoKey = js ''__proto__''"

text \<open>An array index is the canonical decimal text of an integer from 0 to 2^32 - 2.\<close>

definition isArrayIndex :: "jsstring \<Rightarrow> bool" where
  "isArrayIndex k =
     (k \<noteq> [] \<and> list_all isDigit k \<and> (hd k \<noteq> 48 \<or> k = [48]) \<and> digitsValue 10 k < 4294967295)"

fun updateProp :: "jsstring \<Rightarrow> jsvalue \<Rightarrow> (jsstring \<times> jsvalue) list \<Rightarrow> (jsstring \<times> jsvalue) list" where
  "updateProp k v [] = []"
| "updateProp k v ((k', v') # ps) =
     (if k' = k then (k', v) # ps else (k', v') # updateProp k v ps)"

fun insertIndex :: "jsstring \<Rightarrow> jsvalue \<Rightarrow> (jsstring \<times> jsvalue) list \<Rightarrow> (jsstring \<times> jsvalue) list" where
  "insertIndex k v [] = [(k, v)]"
| "insertIndex k v ((k', v') # ps) =
     (if isArrayIndex k' \<and> digitsValue 10 k' < digitsValue 10 k
      then (k', v') # insertIndex k v ps
      else (k, v) # (k', v') # ps)"

text \<open>
  Whether an assignment to \<open>__proto__\<close> that comes to this value through a prototype chain
  reaches the accessor: an array inherits it; an object does unless it has an own property
  \<open>__proto__\<close> or its own chain does not reach it.
\<close>

definition reachesProtoSetter :: "jsvalue \<Rightarrow> bool" where
  "reachesProtoSetter v =
     (case v of
        JArray _ \<Rightarrow> True
      | JObject inherits props \<Rightarrow> protoKey \<notin> fst ` set props \<and> inherits
      | _ \<Rightarrow> False)"

text \<open>
  The assignment \<open>result[key] = value\<close>. An own property is overwritten in place. Otherwise
  the key \<open>__proto__\<close>, when the chain reaches the accessor, calls it: an object, array or
  \<open>null\<close> becomes the prototype and any other value is ignored; no property is created. Every
  other assignment creates an own property.
\<close>

definition objSet :: "jsobject \<Rightarrow> jsstring \<Rightarrow> jsvalue \<Rightarrow> jsobject" where
  "objSet obj key v =
     (let inherits = fst obj; props = snd obj in
      if key \<in> fst ` set props then (inherits, updateProp key v props)
      else if key = protoKey \<and> inherits then
        (case v of
           JNull \<Rightarrow> (False, props)
         | JArray _ \<Rightarrow> (reachesProtoSetter v, props)
         | JObject _ _ \<Rightarrow> (reachesProtoSetter v, props)
         | _ \<Rightarrow> obj)
      else if isArrayIndex key then (inherits, insertIndex key v props)
      else (inherits, props @ [(key, v)]))"

definition objectValue :: "jsobject \<Rightarrow> jsvalue" where
  "objectValue obj = JObject (fst obj) (snd obj)"

section \<open>JSON.stringify\<close>

definition hexDigit :: "nat \<Rightarrow> jschar" where
  "hexDigit d = (if d < 10 then 48 + d else 87 + d)"

definition unicodeEscape :: "jschar \<Rightarrow> jsstring" where
  "unicodeEscape c =
     [92, 117, hexDigit (c div 4096 mod 16), hexDigit (c div 256 mod 16),
      hexDigit (c div 16 mod 16), hexDigit (c mod 16)]"

definition isLeadingSurrogate :: "jschar \<Rightarrow> bool" where
  "isLeadingSurrogate c = (55296 \<le> c \<and> c \<le> 56319)"

definition isTrailingSurrogate :: "jschar \<Rightarrow> bool" where
  "isTrailingSurrogate c = (56320 \<le> c \<and> c \<le> 57343)"

definition quoteUnit :: "jschar \<Rightarrow> jsstring" where
  "quoteUnit c =
     (if c = 8 then [92, 98]
      else if c = 9 then [92, 116]
      else if c = 10 then [92, 110]
      else if c = 12 then [92, 102]
      else if c = 13 then [92, 114]
      else if c = 34 then [92, 34]
      else if c = 92 then [92, 92]
      else if c < 32 \<or> isLeadingSurrogate c \<or> isTrailingSurrogate c then unicodeEscape c
      else [c])"

fun quoteChars :: "jsstring \<Rightarrow> jsstring" where
  "quoteChars [] = []"
| "quoteChars [c] = quoteUnit c"
| "quoteChars (c # d # ds) =
     (if isLeadingSurrogate c \<and> isTrailingSurrogate d then c # d # quoteChars ds
      else quoteUnit c @ quoteChars (d # ds))"

definition quoteJSONString :: "jsstring \<Rightarrow> jsstring" where
  "quoteJSONString s = [34] @ quoteChars s @ [34]"

fun joinWith :: "jsstring \<Rightarrow> jsstring list \<Rightarrow> jsstring" where
  "joinWith sep [] = []"
| "joinWith sep [x] = x"
| "joinWith sep (x # y # ys) = x @ sep @ joinWith sep (y # ys)"

text \<open>
  The brackets around the serialized elements or members \<open>partial\<close>; \<open>stepback\<close> is the
  indentation of the enclosing level and \<open>gap\<close> one level of indentation.
\<close>

definition wrapPartial :: "jsstring \<Rightarrow> jsstring \<Rightarrow> jschar \<Rightarrow> jschar \<Rightarrow> jsstring list \<Rightarrow> jsstring" where
  "wrapPartial gap stepback opening closing partial =
     (if partial = [] then [opening, closing]
      else if gap = [] then [opening] @ joinWith [44] partial @ [closing]
      else [opening, 10] @ stepback @ gap
           @ joinWith ([44, 10] @ stepback @ gap) partial
           @ [10] @ stepback @ [closing])"

fun serializeJSONProperty :: "jsstring \<Rightarrow> jsstring \<Rightarrow> jsvalue \<Rightarrow> jsstring"
  and serializeElements :: "jsstring \<Rightarrow> jsstring \<Rightarrow> jsvalue list \<Rightarrow> jsstring list"
  and serializeMembers :: "jsstring \<Rightarrow> jsstring \<Rightarrow> (jsstring \<times> jsvalue) list \<Rightarrow> jsstring list" where
  "serializeJSONProperty gap indent JNull = js ''null''"
| "serializeJSONProperty gap indent (JBool b) = (if b then js ''true'' else js ''false'')"
| "serializeJSONProperty gap indent (JString s) = quoteJSONString s"
| "serializeJSONProperty gap indent (JNumber x) =
     (case x of Fin q \<Rightarrow> numberToString x | NegZero \<Rightarrow> numberToString x | _ \<Rightarrow> js ''null'')"
| "serializeJSONProperty gap indent (JArray vs) =
     wrapPartial gap indent 91 93 (serializeElements gap (indent @ gap) vs)"
| "serializeJSONProperty gap indent (JObject inherits props) =
     wrapPartial gap indent 123 125 (serializeMembers gap (indent @ gap) props)"
| "serializeElements gap indent [] = []"
| "serializeElements gap indent (v # vs) =
     serializeJSONProperty gap indent v # serializeElements gap indent vs"
| "serializeMembers gap indent [] = []"
| "serializeMembers gap indent ((k, v) # ps) =
     (quoteJSONString k @ [58] @ (if gap = [] then [] else [32]) @ serializeJSONProperty gap indent v)
     # serializeMembers gap indent ps"

text \<open>\<open>JSON.stringify(value, null, indent)\<close> for an integral \<open>indent\<close>: at most ten spaces a level.\<close>

definition stringify :: "jsvalue \<Rightarrow> int \<Rightarrow> jsstring" where
  "stringify v indent = serializeJSONProperty (replicate (nat (min 10 indent)) 32) [] v"

section \<open>The parser\<close>

text \<open>
  \<open>PythonDictParser\<close> holds the token array and a position \<open>pos\<close>; every method takes
  both and returns the new position with its result.
\<close>

definition current :: "Token list \<Rightarrow> nat \<Rightarrow> error + Token" where
  "current tokens pos = (if pos < length tokens then Inr (tokens ! pos) else Inl TokenOutOfRange)"

definition expect :: "Token list \<Rightarrow> nat \<Rightarrow> TokenType \<Rightarrow> error + (Token \<times> nat)" where
  "expect tokens pos ty =
     (case current tokens pos of
        Inl e \<Rightarrow> Inl e
      | Inr token \<Rightarrow>
          if tokType token \<noteq> ty then Inl (ExpectedToken ty token) else Inr (token, pos + 1))"

definition parseString :: "Token list \<Rightarrow> nat \<Rightarrow> error + (jsvalue \<times> nat)" where
  "parseString tokens pos =
     (case expect tokens pos STRING of
        Inl e \<Rightarrow> Inl e
      | Inr (token, p) \<Rightarrow> Inr (JString (tokValue token), p))"

definition parseNumber :: "Token list \<Rightarrow> nat \<Rightarrow> error + (jsvalue \<times> nat)" where
  "parseNumber tokens pos =
     (case expect tokens pos NUMBER of
        Inl e \<Rightarrow> Inl e
      | Inr (token, p) \<Rightarrow>
          (let num = stringToNumber (tokValue token) in
           if isNaN num then Inl (InvalidNumberToken (tokValue token) (tokPos token))
           else Inr (JNumber num, p)))"

definition parseDictKey :: "Token list \<Rightarrow> nat \<Rightarrow> error + (jsstring \<times> nat)" where
  "parseDictKey tokens pos =
     (case current tokens pos of
        Inl e \<Rightarrow> Inl e
      | Inr token \<Rightarrow>
          (case tokType token of
             STRING \<Rightarrow> Inr (tokValue token, pos + 1)
           | NUMBER \<Rightarrow> Inr (tokValue token, pos + 1)
           | TRUE \<Rightarrow> Inr (js ''true'', pos + 1)
           | FALSE \<Rightarrow> Inr (js ''false'', pos + 1)
           | NONE \<Rightarrow> Inr (js ''null'', pos + 1)
           | _ \<Rightarrow> Inl (InvalidDictKey token)))"

function parseValue :: "Token list \<Rightarrow> nat \<Rightarrow> error + (jsvalue \<times> nat)"
  and parseDict :: "Token list \<Rightarrow> nat \<Rightarrow> error + (jsvalue \<times> nat)"
  and parseDictLoop :: "Token list \<Rightarrow> nat \<Rightarrow> jsobject \<Rightarrow> error + (jsvalue \<times> nat)"
  and parseList :: "Token list \<Rightarrow> nat \<Rightarrow> error + (jsvalue \<times> nat)"
  and parseListLoop :: "Token list \<Rightarrow> nat \<Rightarrow> jsvalue list \<Rightarrow> error + (jsvalue \<times> nat)"
  and parseTuple :: "Token list \<Rightarrow> nat \<Rightarrow> error + (jsvalue \<times> nat)"
  and parseTupleLoop :: "Token list \<Rightarrow> nat \<Rightarrow> jsvalue list \<Rightarrow> error + (jsvalue \<times> nat)" where
  "parseValue tokens pos =
     (case current tokens pos of
        Inl e \<Rightarrow> Inl e
      | Inr token \<Rightarrow>
          (case tokType token of
             LBRACE \<Rightarrow> parseDict tokens pos
           | LBRACKET \<Rightarrow> parseList tokens pos
           | LPAREN \<Rightarrow> parseTuple tokens pos
           | STRING \<Rightarrow> parseString tokens pos
           | NUMBER \<Rightarrow> parseNumber tokens pos
           | TRUE \<Rightarrow> Inr (JBool True, pos + 1)
           | FALSE \<Rightarrow> Inr (JBool False, pos + 1)
           | NONE \<Rightarrow> Inr (JNull, pos + 1)
           | _ \<Rightarrow> Inl (UnexpectedToken token)))"
| "parseDict tokens pos =
     (case expect tokens pos LBRACE of
        Inl e \<Rightarrow> Inl e
      | Inr (t0, p) \<Rightarrow>
          (case current tokens p of
             Inl e \<Rightarrow> Inl e
           | Inr token \<Rightarrow>
               if tokType token = RBRACE then Inr (objectValue emptyObject, p + 1)
               else parseDictLoop tokens p emptyObject))"
| "parseDictLoop tokens pos result =
     (case current tokens pos of
        Inl e \<Rightarrow> Inl e
      | Inr token \<Rightarrow>
          if tokType token = RBRACE then
            (case expect tokens pos RBRACE of
               Inl e \<Rightarrow> Inl e
             | Inr (t1, p') \<Rightarrow> Inr (objectValue result, p'))
          else
            (case parseDictKey tokens pos of
               Inl e \<Rightarrow> Inl e
             | Inr (key, p1) \<Rightarrow>
                 (case expect tokens p1 COLON of
                    Inl e \<Rightarrow> Inl e
                  | Inr (t2, p2) \<Rightarrow>
                      (case parseValue tokens p2 of
                         Inl e \<Rightarrow> Inl e
                       | Inr (v, p3) \<Rightarrow>
                           (case current tokens p3 of
                              Inl e \<Rightarrow> Inl e
                            | Inr next \<Rightarrow>
                                if tokType next = COMMA
                                then parseDictLoop tokens (p3 + 1) (objSet result key v)
                                else (case expect tokens p3 RBRACE of
                                        Inl e \<Rightarrow> Inl e
                                      | Inr (t1, p') \<Rightarrow>
                                          Inr (objectValue (objSet result key v), p')))))))"
| "parseList tokens pos =
     (case expect tokens pos LBRACKET of
        Inl e \<Rightarrow> Inl e
      | Inr (t0, p) \<Rightarrow>
          (case current tokens p of
             Inl e \<Rightarrow> Inl e
           | Inr token \<Rightarrow>
               if tokType token = RBRACKET then Inr (JArray [], p + 1)
               else parseListLoop tokens p []))"
| "parseListLoop tokens pos result =
     (case current tokens pos of
        Inl e \<Rightarrow> Inl e
      | Inr token \<Rightarrow>
          if tokType token = RBRACKET then
            (case expect tokens pos RBRACKET of
               Inl e \<Rightarrow> Inl e
             | Inr (t1, p') \<Rightarrow> Inr (JArray result, p'))
          else
            (case parseValue tokens pos of
               Inl e \<Rightarrow> Inl e
             | Inr (v, p3) \<Rightarrow>
                 (case current tokens p3 of
                    Inl e \<Rightarrow> Inl e
                  | Inr next \<Rightarrow>
                      if tokType next = COMMA
                      then parseListLoop tokens (p3 + 1) (result @ [v])
                      else (case expect tokens p3 RBRACKET of
                              Inl e \<Rightarrow> Inl e
                            | Inr (t1, p') \<Rightarrow> Inr (JArray (result @ [v]), p')))))"
| "parseTuple tokens pos =
     (case expect tokens pos LPAREN of
        Inl e \<Rightarrow> Inl e
      | Inr (t0, p) \<Rightarrow>
          (case current tokens p of
             Inl e \<Rightarrow> Inl e
           | Inr token \<Rightarrow>
               if tokType token = RPAREN then Inr (JArray [], p + 1)
               else parseTupleLoop tokens p []))"
| "parseTupleLoop tokens pos result =
     (case current tokens pos of
        Inl e \<Rightarrow> Inl e
      | Inr token \<Rightarrow>
          if tokType token = RPAREN then
            (case expect tokens pos RPAREN of
               Inl e \<Rightarrow> Inl e
             | Inr (t1, p') \<Rightarrow> Inr (JArray result, p'))
          else
            (case parseValue tokens pos of
               Inl e \<Rightarrow> Inl e
             | Inr (v, p3) \<Rightarrow>
                 (case current tokens p3 of
                    Inl e \<Rightarrow> Inl e
                  | Inr next \<Rightarrow>
                      if tokType next = COMMA
                      then parseTupleLoop tokens (p3 + 1) (result @ [v])
                      else (case expect tokens p3 RPAREN of
                              Inl e \<Rightarrow> Inl e
                            | Inr (t1, p') \<Rightarrow> Inr (JArray (result @ [v]), p')))))"
  by pat_completeness auto


lemma current_Inr: "current tokens pos = Inr t \<Longrightarrow> pos < length tokens \<and> t = tokens ! pos"
  by (auto simp: current_def split: if_splits)

lemma expect_Inr:
  "expect tokens pos ty = Inr (t, p) \<Longrightarrow>
     p = pos + 1 \<and> pos < length tokens \<and> t = tokens ! pos \<and> tokType t = ty"
  by (auto simp: expect_def current_def split: if_splits)

lemma parseString_Inr: "parseString tokens pos = Inr (v, p) \<Longrightarrow> p = pos + 1 \<and> pos < length tokens"
  by (auto simp: parseString_def split: sum.splits dest!: expect_Inr)

lemma parseNumber_Inr: "parseNumber tokens pos = Inr (v, p) \<Longrightarrow> p = pos + 1 \<and> pos < length tokens"
  by (auto simp: parseNumber_def Let_def split: sum.splits if_splits dest!: expect_Inr)

lemma parseDictKey_Inr: "parseDictKey tokens pos = Inr (k, p) \<Longrightarrow> p = pos + 1 \<and> pos < length tokens"
  by (auto simp: parseDictKey_def split: sum.splits TokenType.splits dest!: current_Inr)

abbreviation parse_dom where
  "parse_dom \<equiv> parseValue_parseDict_parseDictLoop_parseList_parseListLoop_parseTuple_parseTupleLoop_dom"

lemma parse_partial_le:
  "parse_dom (Inl (Inl (tokens, pos))) \<Longrightarrow> parseValue tokens pos = Inr (v, p) \<Longrightarrow> pos \<le> p"
  "parse_dom (Inl (Inr (Inl (tokens, pos)))) \<Longrightarrow> parseDict tokens pos = Inr (v, p) \<Longrightarrow> pos \<le> p"
  "parse_dom (Inl (Inr (Inr (tokens, pos, obj)))) \<Longrightarrow> parseDictLoop tokens pos obj = Inr (v, p) \<Longrightarrow> pos \<le> p"
  "parse_dom (Inr (Inl (Inl (tokens, pos)))) \<Longrightarrow> parseList tokens pos = Inr (v, p) \<Longrightarrow> pos \<le> p"
  "parse_dom (Inr (Inl (Inr (tokens, pos, vs)))) \<Longrightarrow> parseListLoop tokens pos vs = Inr (v, p) \<Longrightarrow> pos \<le> p"
  "parse_dom (Inr (Inr (Inl (tokens, pos)))) \<Longrightarrow> parseTuple tokens pos = Inr (v, p) \<Longrightarrow> pos \<le> p"
  "parse_dom (Inr (Inr (Inr (tokens, pos, vs)))) \<Longrightarrow> parseTupleLoop tokens pos vs = Inr (v, p) \<Longrightarrow> pos \<le> p"
proof (induct tokens pos and tokens pos and tokens pos obj and tokens pos and tokens pos vs
    and tokens pos and tokens pos vs arbitrary: v p and v p and v p and v p and v p and v p and v p
    rule: parseValue_parseDict_parseDictLoop_parseList_parseListLoop_parseTuple_parseTupleLoop.pinduct)
  case (1 tokens pos)
  from "1.prems" "1.hyps"(2,3,4) show ?case
    by (auto simp: parseValue.psimps [OF "1.hyps"(1)] split: sum.splits TokenType.splits
        dest!: parseString_Inr parseNumber_Inr)
next
  case (2 tokens pos)
  from "2.prems" "2.hyps"(2) show ?case
    by (fastforce simp: parseDict.psimps [OF "2.hyps"(1)] split: sum.splits prod.splits if_splits
        dest!: expect_Inr)
next
  case (3 tokens pos result)
  note eq = parseDictLoop.psimps [OF "3.hyps"(1)]
  from "3.prems" eq obtain b where b: "current tokens pos = Inr b"
    by (cases "current tokens pos") auto
  show ?case
  proof (cases "tokType b = RBRACE")
    case True
    with "3.prems" eq b show ?thesis
      by (auto split: sum.splits dest!: expect_Inr)
  next
    case False
    with "3.prems" eq b obtain key p1 where k: "parseDictKey tokens pos = Inr (key, p1)"
      by (cases "parseDictKey tokens pos") auto
    from "3.prems" eq b False k obtain t2 p2 where c: "expect tokens p1 COLON = Inr (t2, p2)"
      by (cases "expect tokens p1 COLON") auto
    from "3.prems" eq b False k c obtain x y where xy: "parseValue tokens p2 = Inr (x, y)"
      by (cases "parseValue tokens p2") auto
    from "3.hyps"(2) [OF b False k refl c refl xy] have "p2 \<le> y" .
    with parseDictKey_Inr [OF k] expect_Inr [OF c] have le: "pos \<le> y" by simp
    from "3.prems" eq b False k c xy obtain bb where bb: "current tokens y = Inr bb"
      by (cases "current tokens y") auto
    show ?thesis
    proof (cases "tokType bb = COMMA")
      case True
      with "3.prems" eq b False k c xy bb
      have "parseDictLoop tokens (y + 1) (objSet result key x) = Inr (v, p)" by simp
      from "3.hyps"(3) [OF b False k refl c refl xy refl bb True this] le show ?thesis by simp
    next
      case noComma: False
      with "3.prems" eq b False k c xy bb le show ?thesis
        by (auto split: sum.splits dest!: expect_Inr)
    qed
  qed
next
  case (4 tokens pos)
  from "4.prems" "4.hyps"(2) show ?case
    by (fastforce simp: parseList.psimps [OF "4.hyps"(1)] split: sum.splits prod.splits if_splits
        dest!: expect_Inr)
next
  case (5 tokens pos result)
  note eq = parseListLoop.psimps [OF "5.hyps"(1)]
  from "5.prems" eq obtain b where b: "current tokens pos = Inr b"
    by (cases "current tokens pos") auto
  show ?case
  proof (cases "tokType b = RBRACKET")
    case True
    with "5.prems" eq b show ?thesis
      by (auto split: sum.splits dest!: expect_Inr)
  next
    case False
    with "5.prems" eq b obtain x y where xy: "parseValue tokens pos = Inr (x, y)"
      by (cases "parseValue tokens pos") auto
    from "5.hyps"(2) [OF b False xy] have le: "pos \<le> y" .
    from "5.prems" eq b False xy obtain bb where bb: "current tokens y = Inr bb"
      by (cases "current tokens y") auto
    show ?thesis
    proof (cases "tokType bb = COMMA")
      case True
      with "5.prems" eq b False xy bb
      have "parseListLoop tokens (y + 1) (result @ [x]) = Inr (v, p)" by simp
      from "5.hyps"(3) [OF b False xy refl bb True this] le show ?thesis by simp
    next
      case noComma: False
      with "5.prems" eq b False xy bb le show ?thesis
        by (auto split: sum.splits dest!: expect_Inr)
    qed
  qed
next
  case (6 tokens pos)
  from "6.prems" "6.hyps"(2) show ?case
    by (fastforce simp: parseTuple.psimps [OF "6.hyps"(1)] split: sum.splits prod.splits if_splits
        dest!: expect_Inr)
next
  case (7 tokens pos result)
  note eq = parseTupleLoop.psimps [OF "7.hyps"(1)]
  from "7.prems" eq obtain b where b: "current tokens pos = Inr b"
    by (cases "current tokens pos") auto
  show ?case
  proof (cases "tokType b = RPAREN")
    case True
    with "7.prems" eq b show ?thesis
      by (auto split: sum.splits dest!: expect_Inr)
  next
    case False
    with "7.prems" eq b obtain x y where xy: "parseValue tokens pos = Inr (x, y)"
      by (cases "parseValue tokens pos") auto
    from "7.hyps"(2) [OF b False xy] have le: "pos \<le> y" .
    from "7.prems" eq b False xy obtain bb where bb: "current tokens y = Inr bb"
      by (cases "current tokens y") auto
    show ?thesis
    proof (cases "tokType bb = COMMA")
      case True
      with "7.prems" eq b False xy bb
      have "parseTupleLoop tokens (y + 1) (result @ [x]) = Inr (v, p)" by simp
      from "7.hyps"(3) [OF b False xy refl bb True this] le show ?thesis by simp
    next
      case noComma: False
      with "7.prems" eq b False xy bb le show ?thesis
        by (auto split: sum.splits dest!: expect_Inr)
    qed
  qed
qed


lemma parseValue_partial_le:
  "parse_dom (Inl (Inl (tokens, pos))) \<Longrightarrow> parseValue tokens pos = Inr b \<Longrightarrow> (x, y) = b
     \<Longrightarrow> pos \<le> y"
  using parse_partial_le(1) [of tokens pos x y] by simp

termination parseValue
proof (relation "measure (\<lambda>x. case x of
      Inl (Inl (ts, pos)) \<Rightarrow> 3 * (length ts - pos) + 2
    | Inl (Inr (Inl (ts, pos))) \<Rightarrow> 3 * (length ts - pos) + 1
    | Inl (Inr (Inr (ts, pos, r))) \<Rightarrow> 3 * (length ts - pos) + 3
    | Inr (Inl (Inl (ts, pos))) \<Rightarrow> 3 * (length ts - pos) + 1
    | Inr (Inl (Inr (ts, pos, r))) \<Rightarrow> 3 * (length ts - pos) + 3
    | Inr (Inr (Inl (ts, pos))) \<Rightarrow> 3 * (length ts - pos) + 1
    | Inr (Inr (Inr (ts, pos, r))) \<Rightarrow> 3 * (length ts - pos) + 3)", goal_cases)
  case 1
  show ?case by simp
next
  case 2
  then show ?case by simp
next
  case 3
  then show ?case by simp
next
  case 4
  then show ?case by simp
next
  case 5
  then show ?case by (auto dest!: expect_Inr current_Inr)
next
  case 6
  then show ?case by (auto dest!: expect_Inr current_Inr parseDictKey_Inr)
next
  case 7
  then show ?case
    by (auto dest!: expect_Inr current_Inr parseDictKey_Inr parseValue_partial_le)
next
  case 8
  then show ?case by (auto dest!: expect_Inr current_Inr)
next
  case 9
  then show ?case by simp
next
  case 10
  then show ?case by (auto dest!: current_Inr parseValue_partial_le)
next
  case 11
  then show ?case by (auto dest!: expect_Inr current_Inr)
next
  case 12
  then show ?case by simp
next
  case 13
  then show ?case by (auto dest!: current_Inr parseValue_partial_le)
qed

declare parseValue.simps [simp del] parseDict.simps [simp del] parseDictLoop.simps [simp del]
  parseList.simps [simp del] parseListLoop.simps [simp del]
  parseTuple.simps [simp del] parseTupleLoop.simps [simp del]

text \<open>\<open>parse\<close>: one value, then the end of the input.\<close>

definition parse :: "Token list \<Rightarrow> error + jsvalue" where
  "parse tokens =
     (case parseValue tokens 0 of
        Inl e \<Rightarrow> Inl e
      | Inr (result, p) \<Rightarrow>
          (case current tokens p of
             Inl e \<Rightarrow> Inl e
           | Inr token \<Rightarrow>
               if tokType token \<noteq> EOF then Inl (UnexpectedToken token) else Inr result))"

section \<open>The converter\<close>

definition pythonDictToJson :: "jsstring \<Rightarrow> int \<Rightarrow> error + jsstring" where
  "pythonDictToJson input indent =
     (let trimmed = trim input in
      if trimmed = [] then Inl EmptyInput
      else (case tokenize trimmed of
              Inl e \<Rightarrow> Inl e
            | Inr tokens \<Rightarrow>
                (case parse tokens of
                   Inl e \<Rightarrow> Inl e
                 | Inr result \<Rightarrow> Inr (stringify result indent))))"

section \<open>Escape sequences\<close>

lemma readHexChars_eq:
  "pos \<le> length inp \<Longrightarrow> readHexChars n inp pos hex =
     (if pos + n \<le> length inp then Some (hex @ take n (drop pos inp), pos + n) else None)"
proof (induction n arbitrary: pos hex)
  case 0
  then show ?case by simp
next
  case (Suc n)
  show ?case
  proof (cases "length inp \<le> pos")
    case True
    then show ?thesis by simp
  next
    case False
    then have lt: "pos < length inp" by simp
    then have "take (Suc n) (drop pos inp) = inp ! pos # take n (drop (pos + 1) inp)"
      by (simp add: Cons_nth_drop_Suc [symmetric])
    with False lt Suc.IH [of "pos + 1" "hex @ [inp ! pos]"] show ?thesis by simp
  qed
qed

section \<open>Termination of the lexer\<close>

lemma skipComment_bound: "pos \<le> length inp \<Longrightarrow> skipComment inp pos \<le> length inp"
proof (induction inp pos rule: skipComment.induct)
  case (1 inp pos)
  show ?case
  proof (cases "pos < length inp \<and> inp ! pos \<noteq> 10")
    case True
    then have "skipComment inp pos = skipComment inp (pos + 1)"
      by (subst skipComment.simps) simp
    with True "1.IH" show ?thesis by simp
  next
    case False
    then have "skipComment inp pos = pos"
      by (subst skipComment.simps) auto
    with "1.prems" show ?thesis by simp
  qed
qed

lemma skipWhitespaceAndComments_bound:
  "pos \<le> length inp \<Longrightarrow> skipWhitespaceAndComments inp pos \<le> length inp"
proof (induction inp pos rule: skipWhitespaceAndComments.induct)
  case (1 inp pos)
  note eq = skipWhitespaceAndComments.simps [of inp pos]
  show ?case
  proof (cases "pos < length inp")
    case False
    with eq "1.prems" show ?thesis by simp
  next
    case inside: True
    show ?thesis
    proof (cases "inp ! pos = 32 \<or> inp ! pos = 9 \<or> inp ! pos = 10 \<or> inp ! pos = 13")
      case True
      with "1.IH"(1) [OF inside True] eq inside show ?thesis by simp
    next
      case nows: False
      show ?thesis
      proof (cases "inp ! pos = 35")
        case True
        from inside have "skipComment inp pos \<le> length inp"
          by (simp add: skipComment_bound)
        from "1.IH"(2) [OF inside nows True this] eq inside nows True show ?thesis by simp
      next
        case False
        with eq inside nows show ?thesis by simp
      qed
    qed
  qed
qed

lemma readWhile_bound:
  "pos \<le> length inp \<Longrightarrow> readWhile cls skip inp pos result = (r, p) \<Longrightarrow> p \<le> length inp"
proof (induction cls skip inp pos result rule: readWhile.induct)
  case (1 cls skip inp pos result)
  show ?case
  proof (cases "pos < length inp \<and> cls (inp ! pos)")
    case True
    then have "readWhile cls skip inp pos result =
        readWhile cls skip inp (pos + 1) (if skip (inp ! pos) then result else result @ [inp ! pos])"
      by (subst readWhile.simps) simp
    with True "1.IH" "1.prems" show ?thesis by simp
  next
    case False
    then have "readWhile cls skip inp pos result = (result, pos)"
      by (subst readWhile.simps) auto
    with "1.prems" show ?thesis by simp
  qed
qed

lemma readEscapeSequence_bound:
  "readEscapeSequence inp quote pos = Inr (s, p) \<Longrightarrow> p \<le> length inp"
  by (auto simp: readEscapeSequence_def Let_def readHexChars_eq split: if_splits option.splits)

lemma readTripleLoop_bound:
  "pos \<le> length inp \<Longrightarrow> readTripleLoop inp quote startPos pos result = Inr (s, p)
     \<Longrightarrow> p \<le> length inp"
proof (induction inp quote startPos pos result rule: readTripleLoop.induct)
  case (1 inp quote startPos pos result)
  note eq = readTripleLoop.simps [of inp quote startPos pos result]
  show ?case
  proof (cases "pos < length inp")
    case False
    with "1.prems" eq show ?thesis by simp
  next
    case inside: True
    show ?thesis
    proof (cases "inp ! pos = quote \<and> pos + 2 < length inp \<and> inp ! (pos + 1) = quote
        \<and> inp ! (pos + 2) = quote")
      case True
      with inside "1.prems" eq show ?thesis by auto
    next
      case noclose: False
      show ?thesis
      proof (cases "inp ! pos = 92")
        case True
        have step: "readTripleLoop inp quote startPos pos result =
            (case readEscapeSequence inp quote pos of
               Inl e \<Rightarrow> Inl e
             | Inr (s, p) \<Rightarrow> readTripleLoop inp quote startPos p (result @ s))"
          by (subst eq, subst if_P [OF inside], subst if_not_P [OF noclose],
              subst if_P [OF True], rule refl)
        from "1.prems" step obtain s' p' where
          esc: "readEscapeSequence inp quote pos = Inr (s', p')" and
          rest: "readTripleLoop inp quote startPos p' (result @ s') = Inr (s, p)"
          by (cases "readEscapeSequence inp quote pos") auto
        from "1.IH"(1) [OF inside noclose True esc refl readEscapeSequence_bound [OF esc] rest]
        show ?thesis .
      next
        case False
        have "readTripleLoop inp quote startPos pos result =
            readTripleLoop inp quote startPos (pos + 1) (result @ [inp ! pos])"
          by (subst eq, subst if_P [OF inside], subst if_not_P [OF noclose],
              subst if_not_P [OF False], rule refl)
        with "1.prems"
        have rest: "readTripleLoop inp quote startPos (pos + 1) (result @ [inp ! pos]) = Inr (s, p)"
          by simp
        from inside have "pos + 1 \<le> length inp" by simp
        from "1.IH"(2) [OF inside noclose False this rest] show ?thesis .
      qed
    qed
  qed
qed

lemma readStringLoop_bound:
  "pos \<le> length inp \<Longrightarrow> readStringLoop inp quote startPos pos result = Inr (s, p)
     \<Longrightarrow> p \<le> length inp"
proof (induction inp quote startPos pos result rule: readStringLoop.induct)
  case (1 inp quote startPos pos result)
  note eq = readStringLoop.simps [of inp quote startPos pos result]
  show ?case
  proof (cases "pos < length inp")
    case False
    with "1.prems" eq show ?thesis by simp
  next
    case inside: True
    show ?thesis
    proof (cases "inp ! pos = quote")
      case True
      with inside "1.prems" eq show ?thesis by auto
    next
      case noclose: False
      show ?thesis
      proof (cases "inp ! pos = 92")
        case True
        have step: "readStringLoop inp quote startPos pos result =
            (case readEscapeSequence inp quote pos of
               Inl e \<Rightarrow> Inl e
             | Inr (s, p) \<Rightarrow> readStringLoop inp quote startPos p (result @ s))"
          by (subst eq, subst if_P [OF inside], subst if_not_P [OF noclose],
              subst if_P [OF True], rule refl)
        from "1.prems" step obtain s' p' where
          esc: "readEscapeSequence inp quote pos = Inr (s', p')" and
          rest: "readStringLoop inp quote startPos p' (result @ s') = Inr (s, p)"
          by (cases "readEscapeSequence inp quote pos") auto
        from "1.IH"(1) [OF inside noclose True esc refl readEscapeSequence_bound [OF esc] rest]
        show ?thesis .
      next
        case False
        have "readStringLoop inp quote startPos pos result =
            readStringLoop inp quote startPos (pos + 1) (result @ [inp ! pos])"
          by (subst eq, subst if_P [OF inside], subst if_not_P [OF noclose],
              subst if_not_P [OF False], rule refl)
        with "1.prems"
        have rest: "readStringLoop inp quote startPos (pos + 1) (result @ [inp ! pos]) = Inr (s, p)"
          by simp
        from inside have "pos + 1 \<le> length inp" by simp
        from "1.IH"(2) [OF inside noclose False this rest] show ?thesis .
      qed
    qed
  qed
qed

lemma readString_bound:
  "pos \<le> length inp \<Longrightarrow> readString inp quote pos = Inr (s, p) \<Longrightarrow> p \<le> length inp"
  by (auto simp: readString_def Let_def split: if_splits
      dest: readTripleLoop_bound [rotated] readStringLoop_bound [rotated])

lemma readDecimalPoint_bound:
  "pos \<le> length inp \<Longrightarrow> readDecimalPoint inp r pos = (r', p) \<Longrightarrow> p \<le> length inp"
  by (auto simp: readDecimalPoint_def split: if_splits dest: readWhile_bound [rotated])

lemma readExponent_bound:
  "pos \<le> length inp \<Longrightarrow> readExponent inp r pos = (r', p) \<Longrightarrow> p \<le> length inp"
  by (auto simp: readExponent_def peek_def split: if_splits dest: readWhile_bound [rotated])

lemma readDecimal_bound:
  assumes "pos \<le> length inp" and "readDecimal inp start r pos = Inr (num, p)"
  shows "p \<le> length inp"
proof -
  obtain r3 p3 where a: "readWhile isDigitOrUnderscore isUnderscore inp pos r = (r3, p3)"
    by (cases "readWhile isDigitOrUnderscore isUnderscore inp pos r")
  obtain r4 p4 where b: "readDecimalPoint inp r3 p3 = (r4, p4)"
    by (cases "readDecimalPoint inp r3 p3")
  obtain r5 p5 where c: "readExponent inp r4 p4 = (r5, p5)"
    by (cases "readExponent inp r4 p4")
  from assms(2) a b c have "p = p5"
    by (simp add: readDecimal_def split: if_splits)
  with readExponent_bound [OF readDecimalPoint_bound [OF readWhile_bound [OF assms(1) a] b] c]
  show ?thesis by simp
qed

lemma readNumber_bound:
  assumes "pos < length inp" and "readNumber inp pos = Inr (num, p)"
  shows "p \<le> length inp"
  using assms unfolding readNumber_def Let_def
  by (auto simp: peek_def split: if_splits prod.splits
      dest: readWhile_bound [rotated] readDecimal_bound [rotated])

lemma readIdentifier_bound:
  "pos \<le> length inp \<Longrightarrow> readIdentifier inp pos = (ident, p) \<Longrightarrow> p \<le> length inp"
  unfolding readIdentifier_def by (rule readWhile_bound)

lemma tokenizeStep_bound:
  assumes "pos < length inp" and "tokenizeStep inp pos = Inr (tok, p)"
  shows "p \<le> length inp"
proof -
  have str: "p' \<le> length inp" if "readString inp q (Suc pos) = Inr (s, p')" for q s p'
    using readString_bound [OF _ that] assms(1) by simp
  have num: "p' \<le> length inp" if "readNumber inp pos = Inr (n, p')" for n p'
    using readNumber_bound [OF assms(1) that] .
  have ident: "p' \<le> length inp" if "readIdentifier inp pos = (i, p')" for i p'
    using readIdentifier_bound [OF _ that] assms(1) by simp
  from assms show ?thesis
    unfolding tokenizeStep_def Let_def
    by (auto split: if_splits sum.splits prod.splits dest: str num ident)
qed

lemma tokenizeStep_not_EOF:
  "tokenizeStep inp pos = Inr (tok, p) \<Longrightarrow> tokType tok \<noteq> EOF"
  unfolding tokenizeStep_def Let_def
  by (auto simp: mkToken_def split: if_splits sum.splits prod.splits)

lemma tokenizeLoop_shape:
  "pos \<le> length inp \<Longrightarrow> tokenizeLoop inp pos acc = Inr toks \<Longrightarrow>
     \<exists>new. toks = acc @ new @ [mkToken EOF [] (length inp)]
       \<and> (\<forall>t \<in> set new. tokType t \<noteq> EOF) \<and> length new \<le> length inp - pos"
proof (induction inp pos acc rule: tokenizeLoop.induct)
  case (1 inp pos tokens)
  define p where "p = skipWhitespaceAndComments inp pos"
  note eq = tokenizeLoop.simps [of inp pos tokens, folded p_def]
  have ple: "p \<le> length inp" and pge: "pos \<le> p"
    using "1.prems"(1) by (simp_all add: p_def skipWhitespaceAndComments_bound
        skipWhitespaceAndComments_le)
  show ?case
  proof (cases "length inp \<le> p")
    case True
    with ple have "p = length inp" by simp
    with True "1.prems"(2) eq have "toks = tokens @ [] @ [mkToken EOF [] (length inp)]"
      by (simp add: Let_def)
    then show ?thesis by (intro exI [of _ "[]"]) simp
  next
    case False
    then have lt: "p < length inp" by simp
    from False "1.prems"(2) eq obtain tok p' where
      step: "tokenizeStep inp p = Inr (tok, p')" and
      rest: "tokenizeLoop inp p' (tokens @ [tok]) = Inr toks"
      by (cases "tokenizeStep inp p") (auto simp: Let_def)
    from tokenizeStep_bound [OF lt step] have b: "p' \<le> length inp" .
    from tokenizeStep_progress [OF lt step] have g: "p < p'" .
    from "1.IH" [OF p_def False step refl b rest] obtain new where
      new: "toks = (tokens @ [tok]) @ new @ [mkToken EOF [] (length inp)]"
        "\<forall>t \<in> set new. tokType t \<noteq> EOF" "length new \<le> length inp - p'"
      by blast
    from new tokenizeStep_not_EOF [OF step] pge g b
    have "toks = tokens @ (tok # new) @ [mkToken EOF [] (length inp)]
        \<and> (\<forall>t \<in> set (tok # new). tokType t \<noteq> EOF) \<and> length (tok # new) \<le> length inp - pos"
      by auto
    then show ?thesis by blast
  qed
qed

text \<open>
  C10. \<open>tokenize\<close> terminates on every input. The scanning loop is \<open>tokenizeLoop\<close>, a
  total function: its termination proof is the measure \<open>length inp - pos\<close>. Each round that
  pushes a token consumes at least one character and stays inside the input; skipping
  white space and comments never moves back; and a run that returns ends with the one
  \<open>EOF\<close> token, after at most one token for each character of the input.
\<close>

theorem tokenize_terminates:
  "(\<forall>pos tok p. pos < length inp \<and> tokenizeStep inp pos = Inr (tok, p) \<longrightarrow> pos < p \<and> p \<le> length inp)
   \<and> (\<forall>pos. pos \<le> skipWhitespaceAndComments inp pos)
   \<and> (\<forall>toks. tokenize inp = Inr toks \<longrightarrow>
        toks \<noteq> [] \<and> last toks = mkToken EOF [] (length inp)
        \<and> (\<forall>t \<in> set (butlast toks). tokType t \<noteq> EOF)
        \<and> length toks \<le> length inp + 1)"
proof (intro conjI allI impI)
  fix toks
  assume "tokenize inp = Inr toks"
  then have "tokenizeLoop inp 0 [] = Inr toks" by (simp add: tokenize_def)
  from tokenizeLoop_shape [OF _ this] obtain new where
    new: "toks = new @ [mkToken EOF [] (length inp)]"
      "\<forall>t \<in> set new. tokType t \<noteq> EOF" "length new \<le> length inp"
    by auto
  from new show "toks \<noteq> []" by simp
  from new show "last toks = mkToken EOF [] (length inp)" by simp
  from new show "\<forall>t \<in> set (butlast toks). tokType t \<noteq> EOF" by simp
  from new show "length toks \<le> length inp + 1" by simp
qed (auto dest: tokenizeStep_progress tokenizeStep_bound simp: skipWhitespaceAndComments_le)

lemma tokenize_list: "tokenize (js ''[True, # c'' @ [10] @ js ''  None]'') =
  Inr [mkToken LBRACKET (js ''['') 0, mkToken TRUE (js ''true'') 1, mkToken COMMA (js '','') 5,
       mkToken NONE (js ''null'') 13, mkToken RBRACKET (js '']'') 17, mkToken EOF [] 18]"
  by code_simp

theorem tokenize_terminates_witness:
  "tokenize (js ''[True, # c'' @ [10] @ js ''  None]'') =
     Inr [mkToken LBRACKET (js ''['') 0, mkToken TRUE (js ''true'') 1, mkToken COMMA (js '','') 5,
       mkToken NONE (js ''null'') 13, mkToken RBRACKET (js '']'') 17, mkToken EOF [] 18]
   \<and> length [mkToken LBRACKET (js ''['') 0, mkToken TRUE (js ''true'') 1, mkToken COMMA (js '','') 5,
       mkToken NONE (js ''null'') 13, mkToken RBRACKET (js '']'') 17, mkToken EOF [] 18]
       \<le> length (js ''[True, # c'' @ [10] @ js ''  None]'') + 1"
  using tokenize_terminates [of "js ''[True, # c'' @ [10] @ js ''  None]''"] tokenize_list
  by simp

section \<open>Identifiers and keywords\<close>

lemma readWhile_eq:
  "readWhile cls skip inp pos result =
     (result @ filter (\<lambda>c. \<not> skip c) (takeWhile cls (drop pos inp)),
      pos + length (takeWhile cls (drop pos inp)))"
proof (induction cls skip inp pos result rule: readWhile.induct)
  case (1 cls skip inp pos result)
  show ?case
  proof (cases "pos < length inp \<and> cls (inp ! pos)")
    case True
    then have d: "drop pos inp = inp ! pos # drop (pos + 1) inp"
      by (simp add: Cons_nth_drop_Suc)
    from True have "readWhile cls skip inp pos result =
        readWhile cls skip inp (pos + 1) (if skip (inp ! pos) then result else result @ [inp ! pos])"
      by (subst readWhile.simps) simp
    with True "1.IH" d show ?thesis by simp
  next
    case False
    then have r: "readWhile cls skip inp pos result = (result, pos)"
      by (subst readWhile.simps) auto
    from False have "takeWhile cls (drop pos inp) = []"
      by (cases "pos < length inp") (simp_all add: takeWhile_eq_Nil_iff hd_drop_conv_nth)
    with r show ?thesis by simp
  qed
qed

lemma skipWhitespaceAndComments_stay:
  "pos < length inp \<Longrightarrow> inp ! pos \<notin> {32, 9, 10, 13, 35} \<Longrightarrow>
     skipWhitespaceAndComments inp pos = pos"
  by (subst skipWhitespaceAndComments.simps) simp

lemma tokenizeLoop_step:
  assumes "pos < length inp" and "inp ! pos \<notin> {32, 9, 10, 13, 35}"
  shows "tokenizeLoop inp pos tokens =
     (case tokenizeStep inp pos of
        Inl e \<Rightarrow> Inl e
      | Inr (tok, p) \<Rightarrow> tokenizeLoop inp p (tokens @ [tok]))"
  using assms
  by (subst tokenizeLoop.simps) (simp add: skipWhitespaceAndComments_stay Let_def)

text \<open>The token \<open>tokenize\<close> pushes for an identifier, by the cases of its inner \<open>switch\<close>.\<close>

definition identifierToken :: "jsstring \<Rightarrow> nat \<Rightarrow> Token" where
  "identifierToken ident pos =
     (if ident = js ''True'' \<or> ident = js ''true'' then mkToken TRUE (js ''true'') pos
      else if ident = js ''False'' \<or> ident = js ''false'' then mkToken FALSE (js ''false'') pos
      else if ident = js ''None'' \<or> ident = js ''null'' then mkToken NONE (js ''null'') pos
      else mkToken STRING ident pos)"

lemma tokenizeStep_identifier:
  assumes "pos < length inp" and "isIdentStart (inp ! pos)"
  shows "tokenizeStep inp pos =
     Inr (identifierToken (takeWhile isIdentChar (drop pos inp)) pos,
          pos + length (takeWhile isIdentChar (drop pos inp)))"
proof -
  from assms(2) have c: "inp ! pos \<notin> {123, 125, 91, 93, 40, 41, 58, 44, 39, 34, 45}"
    "\<not> isDigit (inp ! pos)"
    by (auto simp: isIdentStart_def isDigit_def)
  have r: "readIdentifier inp pos =
      (takeWhile isIdentChar (drop pos inp), pos + length (takeWhile isIdentChar (drop pos inp)))"
    by (simp add: readIdentifier_def readWhile_eq)
  from c assms(2) show ?thesis
    unfolding tokenizeStep_def Let_def r identifierToken_def
    by (simp add: js_def)
qed

lemma convert_status_ok:
  "pythonDictToJson (js ''{status: ok}'') 4 =
     Inr (js ''{'' @ [10] @ js ''    '' @ [34] @ js ''status'' @ [34] @ js '': '' @ [34] @ js ''ok''
          @ [34, 10] @ js ''}'')"
  by code_simp

text \<open>
  C4. Where the lexer meets a letter or an underscore it reads the whole run of letters,
  digits and underscores, and pushes one token for it: \<open>TRUE\<close> for \<open>True\<close> and \<open>true\<close>,
  \<open>FALSE\<close> for \<open>False\<close> and \<open>false\<close>, \<open>NONE\<close> for \<open>None\<close> and \<open>null\<close>, and for any
  other identifier a \<open>STRING\<close> token whose text is the identifier. The scanning loop goes on
  after the run. So \<open>{status: ok}\<close> converts, at indent 4, to the object with the key
  \<open>status\<close> and the string \<open>ok\<close>.
\<close>

theorem identifier_classification:
  "(pos < length inp \<and> isIdentStart (inp ! pos) \<longrightarrow>
      (let ident = takeWhile isIdentChar (drop pos inp);
           tok = (if ident = js ''True'' \<or> ident = js ''true'' then mkToken TRUE (js ''true'') pos
                  else if ident = js ''False'' \<or> ident = js ''false''
                    then mkToken FALSE (js ''false'') pos
                  else if ident = js ''None'' \<or> ident = js ''null''
                    then mkToken NONE (js ''null'') pos
                  else mkToken STRING ident pos)
       in tokenizeStep inp pos = Inr (tok, pos + length ident)
          \<and> tokenizeLoop inp pos tokens = tokenizeLoop inp (pos + length ident) (tokens @ [tok])))
   \<and> pythonDictToJson (js ''{status: ok}'') 4 =
       Inr (js ''{'' @ [10] @ js ''    '' @ [34] @ js ''status'' @ [34] @ js '': '' @ [34] @ js ''ok''
            @ [34, 10] @ js ''}'')"
proof (intro conjI impI)
  assume a: "pos < length inp \<and> isIdentStart (inp ! pos)"
  then have "inp ! pos \<notin> {32, 9, 10, 13, 35}"
    by (auto simp: isIdentStart_def)
  with a show "let ident = takeWhile isIdentChar (drop pos inp);
           tok = (if ident = js ''True'' \<or> ident = js ''true'' then mkToken TRUE (js ''true'') pos
                  else if ident = js ''False'' \<or> ident = js ''false''
                    then mkToken FALSE (js ''false'') pos
                  else if ident = js ''None'' \<or> ident = js ''null''
                    then mkToken NONE (js ''null'') pos
                  else mkToken STRING ident pos)
       in tokenizeStep inp pos = Inr (tok, pos + length ident)
          \<and> tokenizeLoop inp pos tokens = tokenizeLoop inp (pos + length ident) (tokens @ [tok])"
    unfolding Let_def
    by (simp add: tokenizeLoop_step tokenizeStep_identifier identifierToken_def)
qed (rule convert_status_ok)

lemma tokenize_keywords:
  "tokenize (js ''True true False false None null Nil _x1'') =
     Inr [mkToken TRUE (js ''true'') 0, mkToken TRUE (js ''true'') 5,
          mkToken FALSE (js ''false'') 10, mkToken FALSE (js ''false'') 16,
          mkToken NONE (js ''null'') 22, mkToken NONE (js ''null'') 27,
          mkToken STRING (js ''Nil'') 32, mkToken STRING (js ''_x1'') 36, mkToken EOF [] 39]"
  by code_simp

theorem identifier_classification_witness:
  "tokenizeStep (js ''[ok]'') 1 = Inr (mkToken STRING (js ''ok'') 1, 3)
   \<and> tokenizeStep (js ''None,'') 0 = Inr (mkToken NONE (js ''null'') 0, 4)
   \<and> tokenize (js ''True true False false None null Nil _x1'') =
     Inr [mkToken TRUE (js ''true'') 0, mkToken TRUE (js ''true'') 5,
          mkToken FALSE (js ''false'') 10, mkToken FALSE (js ''false'') 16,
          mkToken NONE (js ''null'') 22, mkToken NONE (js ''null'') 27,
          mkToken STRING (js ''Nil'') 32, mkToken STRING (js ''_x1'') 36, mkToken EOF [] 39]"
proof -
  have 1: "tokenizeStep (js ''[ok]'') 1 = Inr (mkToken STRING (js ''ok'') 1, 3)"
    using identifier_classification [of 1 "js ''[ok]''" "[]"]
    by (simp add: js_def isIdentStart_def isIdentChar_def isDigit_def Let_def)
  have 2: "tokenizeStep (js ''None,'') 0 = Inr (mkToken NONE (js ''null'') 0, 4)"
    using identifier_classification [of 0 "js ''None,''" "[]"]
    by (simp add: js_def isIdentStart_def isIdentChar_def isDigit_def Let_def)
  from 1 2 tokenize_keywords show ?thesis by blast
qed

section \<open>Unicode and hex escapes in string literals\<close>

lemma drop_eq_ConsD:
  "drop n xs = y # ys \<Longrightarrow> n < length xs \<and> xs ! n = y \<and> drop (Suc n) xs = ys"
proof -
  assume a: "drop n xs = y # ys"
  then have n: "n < length xs" by (cases "n < length xs") auto
  from a n have "xs ! n = y" by (metis nth_via_drop)
  moreover from a have "drop (Suc n) xs = ys"
    by (metis drop_Suc drop_tl list.sel(3) tl_drop)
  ultimately show ?thesis using n by simp
qed

lemma drop_eq_appendD:
  "drop n xs = ys @ zs \<Longrightarrow> drop (n + length ys) xs = zs"
proof -
  assume a: "drop n xs = ys @ zs"
  have "drop (n + length ys) xs = drop (length ys) (drop n xs)"
    by (simp add: add.commute)
  with a show ?thesis by simp
qed

lemma drop_eq_append_bound:
  "drop n xs = ys @ zs \<Longrightarrow> ys \<noteq> [] \<Longrightarrow> n + length ys \<le> length xs"
proof -
  assume a: "drop n xs = ys @ zs" and "ys \<noteq> []"
  from a have "length xs - n = length ys + length zs"
    by (metis length_append length_drop)
  with \<open>ys \<noteq> []\<close> show ?thesis by (cases ys) auto
qed

lemma readStringLoop_escape:
  assumes "pos < length inp" and "inp ! pos = 92" and "quote \<noteq> 92"
  shows "readStringLoop inp quote startPos pos result =
     (case readEscapeSequence inp quote pos of
        Inl e \<Rightarrow> Inl e
      | Inr (s, p) \<Rightarrow> readStringLoop inp quote startPos p (result @ s))"
  using assms by (subst readStringLoop.simps) simp

lemma readTripleLoop_escape:
  assumes "pos < length inp" and "inp ! pos = 92" and "quote \<noteq> 92"
  shows "readTripleLoop inp quote startPos pos result =
     (case readEscapeSequence inp quote pos of
        Inl e \<Rightarrow> Inl e
      | Inr (s, p) \<Rightarrow> readTripleLoop inp quote startPos p (result @ s))"
  using assms by (subst readTripleLoop.simps) simp

lemma readStringLoop_plain:
  "drop pos inp = body @ rest \<Longrightarrow> quote \<notin> set body \<Longrightarrow> 92 \<notin> set body \<Longrightarrow>
     readStringLoop inp quote startPos pos result =
       readStringLoop inp quote startPos (pos + length body) (result @ body)"
proof (induction body arbitrary: pos result)
  case Nil
  then show ?case by simp
next
  case (Cons c cs)
  from Cons.prems(1) have "drop pos inp = c # (cs @ rest)" by simp
  from drop_eq_ConsD [OF this]
  have p: "pos < length inp" "inp ! pos = c" "drop (Suc pos) inp = cs @ rest" by simp_all
  from Cons.prems(2,3) have c: "c \<noteq> quote" "c \<noteq> 92" by auto
  from p c have "readStringLoop inp quote startPos pos result =
      readStringLoop inp quote startPos (Suc pos) (result @ [c])"
    by (subst readStringLoop.simps) simp
  also from Cons.prems(2,3) have "\<dots> =
      readStringLoop inp quote startPos (Suc pos + length cs) ((result @ [c]) @ cs)"
    by (intro Cons.IH [OF p(3)]) auto
  finally show ?case by simp
qed

lemma readStringLoop_close:
  "pos < length inp \<Longrightarrow> inp ! pos = quote \<Longrightarrow>
     readStringLoop inp quote startPos pos result = Inr (result, pos + 1)"
  by (subst readStringLoop.simps) simp

lemma tokenizeStep_quote:
  assumes "inp ! pos = 39 \<or> inp ! pos = 34"
  shows "tokenizeStep inp pos =
     (case readString inp (inp ! pos) (pos + 1) of
        Inl e \<Rightarrow> Inl e
      | Inr (str, p) \<Rightarrow> Inr (mkToken STRING str pos, p))"
  using assms unfolding tokenizeStep_def Let_def by auto


lemma readString_loop_escape_unicode:
  assumes "quote \<noteq> 92" and "pos + 1 < length inp" and "inp ! pos = 92"
    and "inp ! (pos + 1) = 117"
  shows "readStringLoop inp quote startPos pos result =
      (if pos + 6 \<le> length inp
       then readStringLoop inp quote startPos (pos + 6)
              (result @ fromCharCode (parseInt (take 4 (drop (pos + 2) inp)) 16))
       else Inl UnexpectedEndInUnicodeEscape)"
    and "readTripleLoop inp quote startPos pos result =
      (if pos + 6 \<le> length inp
       then readTripleLoop inp quote startPos (pos + 6)
              (result @ fromCharCode (parseInt (take 4 (drop (pos + 2) inp)) 16))
       else Inl UnexpectedEndInUnicodeEscape)"
proof -
  from assms(2,4) have e: "readEscapeSequence inp quote pos =
      (if pos + 6 \<le> length inp
       then Inr (fromCharCode (parseInt (take 4 (drop (pos + 2) inp)) 16), pos + 6)
       else Inl UnexpectedEndInUnicodeEscape)"
    by (simp add: readEscapeSequence_def readHexChars_eq)
  from assms(2) have p: "pos < length inp" by simp
  show "readStringLoop inp quote startPos pos result =
      (if pos + 6 \<le> length inp
       then readStringLoop inp quote startPos (pos + 6)
              (result @ fromCharCode (parseInt (take 4 (drop (pos + 2) inp)) 16))
       else Inl UnexpectedEndInUnicodeEscape)"
    by (simp add: readStringLoop_escape [OF p assms(3,1)] e)
  show "readTripleLoop inp quote startPos pos result =
      (if pos + 6 \<le> length inp
       then readTripleLoop inp quote startPos (pos + 6)
              (result @ fromCharCode (parseInt (take 4 (drop (pos + 2) inp)) 16))
       else Inl UnexpectedEndInUnicodeEscape)"
    by (simp add: readTripleLoop_escape [OF p assms(3,1)] e)
qed

lemma readString_loop_escape_hex:
  assumes "quote \<noteq> 92" and "pos + 1 < length inp" and "inp ! pos = 92"
    and "inp ! (pos + 1) = 120"
  shows "readStringLoop inp quote startPos pos result =
      (if pos + 4 \<le> length inp
       then readStringLoop inp quote startPos (pos + 4)
              (result @ fromCharCode (parseInt (take 2 (drop (pos + 2) inp)) 16))
       else Inl UnexpectedEndInHexEscape)"
    and "readTripleLoop inp quote startPos pos result =
      (if pos + 4 \<le> length inp
       then readTripleLoop inp quote startPos (pos + 4)
              (result @ fromCharCode (parseInt (take 2 (drop (pos + 2) inp)) 16))
       else Inl UnexpectedEndInHexEscape)"
proof -
  from assms(2,4) have e: "readEscapeSequence inp quote pos =
      (if pos + 4 \<le> length inp
       then Inr (fromCharCode (parseInt (take 2 (drop (pos + 2) inp)) 16), pos + 4)
       else Inl UnexpectedEndInHexEscape)"
    by (simp add: readEscapeSequence_def readHexChars_eq)
  from assms(2) have p: "pos < length inp" by simp
  show "readStringLoop inp quote startPos pos result =
      (if pos + 4 \<le> length inp
       then readStringLoop inp quote startPos (pos + 4)
              (result @ fromCharCode (parseInt (take 2 (drop (pos + 2) inp)) 16))
       else Inl UnexpectedEndInHexEscape)"
    by (simp add: readStringLoop_escape [OF p assms(3,1)] e)
  show "readTripleLoop inp quote startPos pos result =
      (if pos + 4 \<le> length inp
       then readTripleLoop inp quote startPos (pos + 4)
              (result @ fromCharCode (parseInt (take 2 (drop (pos + 2) inp)) 16))
       else Inl UnexpectedEndInHexEscape)"
    by (simp add: readTripleLoop_escape [OF p assms(3,1)] e)
qed

text \<open>
  A single-quoted or double-quoted literal \<open>q b1 \<backslash>c hex b2 q\<close> at the end of \<open>pre\<close>, where \<open>c\<close>
  is \<open>u\<close> or \<open>x\<close>, \<open>hex\<close> is any \<open>n\<close> characters, and \<open>b1\<close> and \<open>b2\<close> hold neither the
  quote nor a backslash.
\<close>

lemma tokenizeStep_string_escape:
  assumes q: "q = 39 \<or> q = 34"
    and b1: "q \<notin> set b1" "92 \<notin> set b1" and b2: "q \<notin> set b2" "92 \<notin> set b2"
    and c: "(c = 117 \<and> n = 4) \<or> (c = 120 \<and> n = 2)" and hex: "length hex = n"
  shows "tokenizeStep (pre @ [q] @ b1 @ [92, c] @ hex @ b2 @ [q] @ post) (length pre) =
     Inr (mkToken STRING (b1 @ fromCharCode (parseInt hex 16) @ b2) (length pre),
          length pre + length b1 + length b2 + n + 4)"
proof -
  define inp where "inp = pre @ [q] @ b1 @ [92, c] @ hex @ b2 @ [q] @ post"
  define s where "s = length pre + 1"
  have d0: "drop (length pre) inp = q # (b1 @ [92, c] @ hex @ b2 @ [q] @ post)"
    by (simp add: inp_def)
  from drop_eq_ConsD [OF d0] have i0: "inp ! length pre = q"
    and d1: "drop s inp = b1 @ ([92, c] @ hex @ b2 @ [q] @ post)" by (simp_all add: s_def)
  from drop_eq_appendD [OF d1]
  have d2: "drop (s + length b1) inp = 92 # c # (hex @ b2 @ [q] @ post)" by simp
  from drop_eq_ConsD [OF d2]
  have e0: "s + length b1 < length inp" "inp ! (s + length b1) = 92"
    and d3: "drop (Suc (s + length b1)) inp = c # (hex @ b2 @ [q] @ post)" by simp_all
  from drop_eq_ConsD [OF d3]
  have e1: "Suc (s + length b1) < length inp" "inp ! Suc (s + length b1) = c"
    and d4: "drop (s + length b1 + 2) inp = hex @ (b2 @ [q] @ post)" by simp_all
  from c hex have hne: "hex \<noteq> []" by auto
  from drop_eq_append_bound [OF d4 hne] hex
  have bound: "s + length b1 + 2 + n \<le> length inp" by simp
  from d4 hex have tk: "take n (drop (s + length b1 + 2) inp) = hex" by simp
  from drop_eq_appendD [OF d4] hex
  have d5: "drop (s + length b1 + 2 + n) inp = b2 @ (q # post)" by simp
  from drop_eq_appendD [OF d5]
  have d6: "drop (s + length b1 + 2 + n + length b2) inp = q # post" by simp
  from drop_eq_ConsD [OF d6]
  have cl: "s + length b1 + 2 + n + length b2 < length inp"
    "inp ! (s + length b1 + 2 + n + length b2) = q" by simp_all
  from q have q92: "q \<noteq> 92" by auto
  have nottriple: "inp ! s \<noteq> q"
  proof (cases b1)
    case Nil
    with e0 q92 show ?thesis by simp
  next
    case (Cons x xs)
    with d1 have "drop s inp = x # (xs @ [92, c] @ hex @ b2 @ [q] @ post)" by simp
    from drop_eq_ConsD [OF this] have "inp ! s = x" by simp
    with Cons b1(1) show ?thesis by auto
  qed
  have esc: "readStringLoop inp q s (s + length b1) b1 =
      readStringLoop inp q s (s + length b1 + 2 + n) (b1 @ fromCharCode (parseInt hex 16))"
  proof -
    define k where "k = s + length b1"
    from e0 e1 have a: "k + 1 < length inp" "inp ! k = 92" "inp ! (k + 1) = c"
      by (simp_all add: k_def)
    from c show ?thesis
    proof
      assume cn: "c = 117 \<and> n = 4"
      with bound have bd: "k + 6 \<le> length inp" by (simp add: k_def)
      from tk cn have t: "take 4 (drop (k + 2) inp) = hex" by (simp add: k_def)
      from cn a(3) have "inp ! (k + 1) = 117" by simp
      from readString_loop_escape_unicode(1) [OF q92 a(1,2) this, of s b1]
      have "readStringLoop inp q s k b1 =
          readStringLoop inp q s (k + 6) (b1 @ fromCharCode (parseInt hex 16))"
        by (simp only: bd t if_True)
      moreover from cn have "k + 6 = s + length b1 + 2 + n" by (simp add: k_def)
      ultimately show ?thesis by (simp only: k_def)
    next
      assume cn: "c = 120 \<and> n = 2"
      with bound have bd: "k + 4 \<le> length inp" by (simp add: k_def)
      from tk cn have t: "take 2 (drop (k + 2) inp) = hex" by (simp add: k_def)
      from cn a(3) have "inp ! (k + 1) = 120" by simp
      from readString_loop_escape_hex(1) [OF q92 a(1,2) this, of s b1]
      have "readStringLoop inp q s k b1 =
          readStringLoop inp q s (k + 4) (b1 @ fromCharCode (parseInt hex 16))"
        by (simp only: bd t if_True)
      moreover from cn have "k + 4 = s + length b1 + 2 + n" by (simp add: k_def)
      ultimately show ?thesis by (simp only: k_def)
    qed
  qed
  have "readString inp q s = readStringLoop inp q s s []"
    using nottriple by (simp add: readString_def Let_def)
  also have "\<dots> = readStringLoop inp q s (s + length b1) ([] @ b1)"
    by (rule readStringLoop_plain [OF d1 b1])
  also have "\<dots> = readStringLoop inp q s (s + length b1 + 2 + n)
      (b1 @ fromCharCode (parseInt hex 16))"
    using esc by simp
  also have "\<dots> = readStringLoop inp q s (s + length b1 + 2 + n + length b2)
      ((b1 @ fromCharCode (parseInt hex 16)) @ b2)"
    by (rule readStringLoop_plain [OF d5 b2])
  also have "\<dots> = Inr ((b1 @ fromCharCode (parseInt hex 16)) @ b2,
      s + length b1 + 2 + n + length b2 + 1)"
    by (rule readStringLoop_close [OF cl])
  finally have r: "readString inp q (length pre + 1) =
      Inr (b1 @ fromCharCode (parseInt hex 16) @ b2, length pre + length b1 + length b2 + n + 4)"
    by (simp add: s_def)
  from q i0 have "inp ! length pre = 39 \<or> inp ! length pre = 34" by simp
  from tokenizeStep_quote [OF this] r i0 show ?thesis
    by (simp add: inp_def)
qed


lemma tokenizeStep_string_escape_cut:
  assumes q: "q = 39 \<or> q = 34"
    and b1: "q \<notin> set b1" "92 \<notin> set b1"
    and c: "(c = 117 \<and> n = 4) \<or> (c = 120 \<and> n = 2)" and hex: "length hex < n"
  shows "tokenizeStep (pre @ [q] @ b1 @ [92, c] @ hex) (length pre) =
     Inl (if c = 117 then UnexpectedEndInUnicodeEscape else UnexpectedEndInHexEscape)"
proof -
  define inp where "inp = pre @ [q] @ b1 @ [92, c] @ hex"
  define s where "s = length pre + 1"
  define k where "k = s + length b1"
  have len: "length inp = k + 2 + length hex"
    by (simp add: inp_def k_def s_def)
  have d0: "drop (length pre) inp = q # (b1 @ [92, c] @ hex)"
    by (simp add: inp_def)
  from drop_eq_ConsD [OF d0] have i0: "inp ! length pre = q"
    and d1: "drop s inp = b1 @ ([92, c] @ hex)" by (simp_all add: s_def)
  from drop_eq_appendD [OF d1]
  have d2: "drop k inp = 92 # c # hex" by (simp add: k_def)
  from drop_eq_ConsD [OF d2]
  have e0: "k < length inp" "inp ! k = 92"
    and d3: "drop (Suc k) inp = c # hex" by simp_all
  from drop_eq_ConsD [OF d3]
  have e1: "k + 1 < length inp" "inp ! (k + 1) = c" by simp_all
  from q have q92: "q \<noteq> 92" by auto
  have nottriple: "inp ! s \<noteq> q"
  proof (cases b1)
    case Nil
    with e0 q92 show ?thesis by (simp add: k_def)
  next
    case (Cons x xs)
    with d1 have "drop s inp = x # (xs @ [92, c] @ hex)" by simp
    from drop_eq_ConsD [OF this] have "inp ! s = x" by simp
    with Cons b1(1) show ?thesis by auto
  qed
  have esc: "readStringLoop inp q s k b1 =
      Inl (if c = 117 then UnexpectedEndInUnicodeEscape else UnexpectedEndInHexEscape)"
  proof -
    from c show ?thesis
    proof
      assume cn: "c = 117 \<and> n = 4"
      with hex len have bd: "\<not> k + 6 \<le> length inp" by simp
      from cn e1 have "inp ! (k + 1) = 117" by simp
      from readString_loop_escape_unicode(1) [OF q92 e1(1) e0(2) this, of s b1] bd cn
      show ?thesis by simp
    next
      assume cn: "c = 120 \<and> n = 2"
      with hex len have bd: "\<not> k + 4 \<le> length inp" by simp
      from cn e1 have "inp ! (k + 1) = 120" by simp
      from readString_loop_escape_hex(1) [OF q92 e1(1) e0(2) this, of s b1] bd cn
      show ?thesis by simp
    qed
  qed
  have "readString inp q s = readStringLoop inp q s s []"
    using nottriple by (simp add: readString_def Let_def)
  also have "\<dots> = readStringLoop inp q s (s + length b1) ([] @ b1)"
    by (rule readStringLoop_plain [OF d1 b1])
  also have "\<dots> = Inl (if c = 117 then UnexpectedEndInUnicodeEscape else UnexpectedEndInHexEscape)"
    using esc by (simp add: k_def)
  finally have r: "readString inp q (length pre + 1) =
      Inl (if c = 117 then UnexpectedEndInUnicodeEscape else UnexpectedEndInHexEscape)"
    by (simp add: s_def)
  from q i0 have "inp ! length pre = 39 \<or> inp ! length pre = 34" by simp
  from tokenizeStep_quote [OF this] r i0 show ?thesis
    by (simp add: inp_def)
qed

lemma tokenizeLoop_at_quote:
  assumes "q = 39 \<or> q = 34"
  shows "tokenizeLoop (pre @ [q] @ rest) (length pre) tokens =
     (case tokenizeStep (pre @ [q] @ rest) (length pre) of
        Inl e \<Rightarrow> Inl e
      | Inr (tok, p) \<Rightarrow> tokenizeLoop (pre @ [q] @ rest) p (tokens @ [tok]))"
proof -
  have "length pre < length (pre @ [q] @ rest)" by simp
  moreover from assms have "(pre @ [q] @ rest) ! length pre \<notin> {32, 9, 10, 13, 35}"
    by auto
  ultimately show ?thesis by (rule tokenizeLoop_step)
qed

text \<open>
  C9. In a string literal, after \<open>\u\<close> the lexer takes the next four characters whatever
  they are, and after \<open>\x\<close> the next two: the escape is the one code unit
  \<open>String.fromCharCode(parseInt(hex, 16))\<close>, also when the characters are not hexadecimal
  digits, and lexing goes on after them. This is stated of \<open>readEscapeSequence\<close>, of both
  string loops standing at the backslash, and of \<open>tokenize\<close>'s round on a whole quoted
  literal \<open>q b1 \u hex b2 q\<close>. The escape fails only when the input ends before the four
  (or two) characters, with the end-of-input error of that escape.
\<close>

theorem escape_unicode_hex_total:
  "(pos + 1 < length inp \<longrightarrow>
     (inp ! (pos + 1) = 117 \<longrightarrow>
        readEscapeSequence inp quote pos =
          (if pos + 6 \<le> length inp
           then Inr (fromCharCode (parseInt (take 4 (drop (pos + 2) inp)) 16), pos + 6)
           else Inl UnexpectedEndInUnicodeEscape))
     \<and> (inp ! (pos + 1) = 120 \<longrightarrow>
        readEscapeSequence inp quote pos =
          (if pos + 4 \<le> length inp
           then Inr (fromCharCode (parseInt (take 2 (drop (pos + 2) inp)) 16), pos + 4)
           else Inl UnexpectedEndInHexEscape)))
   \<and> (quote \<noteq> 92 \<and> pos + 1 < length inp \<and> inp ! pos = 92 \<longrightarrow>
     (inp ! (pos + 1) = 117 \<longrightarrow>
        readStringLoop inp quote startPos pos result =
          (if pos + 6 \<le> length inp
           then readStringLoop inp quote startPos (pos + 6)
                  (result @ fromCharCode (parseInt (take 4 (drop (pos + 2) inp)) 16))
           else Inl UnexpectedEndInUnicodeEscape)
        \<and> readTripleLoop inp quote startPos pos result =
          (if pos + 6 \<le> length inp
           then readTripleLoop inp quote startPos (pos + 6)
                  (result @ fromCharCode (parseInt (take 4 (drop (pos + 2) inp)) 16))
           else Inl UnexpectedEndInUnicodeEscape))
     \<and> (inp ! (pos + 1) = 120 \<longrightarrow>
        readStringLoop inp quote startPos pos result =
          (if pos + 4 \<le> length inp
           then readStringLoop inp quote startPos (pos + 4)
                  (result @ fromCharCode (parseInt (take 2 (drop (pos + 2) inp)) 16))
           else Inl UnexpectedEndInHexEscape)
        \<and> readTripleLoop inp quote startPos pos result =
          (if pos + 4 \<le> length inp
           then readTripleLoop inp quote startPos (pos + 4)
                  (result @ fromCharCode (parseInt (take 2 (drop (pos + 2) inp)) 16))
           else Inl UnexpectedEndInHexEscape)))
   \<and> ((q = 39 \<or> q = 34) \<and> q \<notin> set b1 \<and> 92 \<notin> set b1 \<and> q \<notin> set b2 \<and> 92 \<notin> set b2
        \<and> ((c = 117 \<and> n = 4) \<or> (c = 120 \<and> n = 2)) \<longrightarrow>
     (length hex = n \<longrightarrow>
        tokenizeStep (pre @ [q] @ b1 @ [92, c] @ hex @ b2 @ [q] @ post) (length pre) =
          Inr (mkToken STRING (b1 @ fromCharCode (parseInt hex 16) @ b2) (length pre),
               length pre + length b1 + length b2 + n + 4)
        \<and> tokenizeLoop (pre @ [q] @ b1 @ [92, c] @ hex @ b2 @ [q] @ post) (length pre) tokens =
            tokenizeLoop (pre @ [q] @ b1 @ [92, c] @ hex @ b2 @ [q] @ post)
              (length pre + length b1 + length b2 + n + 4)
              (tokens @ [mkToken STRING (b1 @ fromCharCode (parseInt hex 16) @ b2) (length pre)]))
     \<and> (length hex < n \<longrightarrow>
        tokenizeStep (pre @ [q] @ b1 @ [92, c] @ hex) (length pre) =
          Inl (if c = 117 then UnexpectedEndInUnicodeEscape else UnexpectedEndInHexEscape)
        \<and> tokenizeLoop (pre @ [q] @ b1 @ [92, c] @ hex) (length pre) tokens =
          Inl (if c = 117 then UnexpectedEndInUnicodeEscape else UnexpectedEndInHexEscape)))
   \<and> length (fromCharCode (parseInt hex 16)) = 1"
proof (intro conjI impI)
  assume "pos + 1 < length inp" and "inp ! (pos + 1) = 117"
  then show "readEscapeSequence inp quote pos =
          (if pos + 6 \<le> length inp
           then Inr (fromCharCode (parseInt (take 4 (drop (pos + 2) inp)) 16), pos + 6)
           else Inl UnexpectedEndInUnicodeEscape)"
    by (simp add: readEscapeSequence_def readHexChars_eq)
next
  assume "pos + 1 < length inp" and "inp ! (pos + 1) = 120"
  then show "readEscapeSequence inp quote pos =
          (if pos + 4 \<le> length inp
           then Inr (fromCharCode (parseInt (take 2 (drop (pos + 2) inp)) 16), pos + 4)
           else Inl UnexpectedEndInHexEscape)"
    by (simp add: readEscapeSequence_def readHexChars_eq)
next
  assume a: "quote \<noteq> 92 \<and> pos + 1 < length inp \<and> inp ! pos = 92" and b: "inp ! (pos + 1) = 117"
  from a have a': "quote \<noteq> 92" "pos + 1 < length inp" "inp ! pos = 92" by simp_all
  show "readStringLoop inp quote startPos pos result =
          (if pos + 6 \<le> length inp
           then readStringLoop inp quote startPos (pos + 6)
                  (result @ fromCharCode (parseInt (take 4 (drop (pos + 2) inp)) 16))
           else Inl UnexpectedEndInUnicodeEscape)"
    by (rule readString_loop_escape_unicode(1) [OF a' b])
  show "readTripleLoop inp quote startPos pos result =
          (if pos + 6 \<le> length inp
           then readTripleLoop inp quote startPos (pos + 6)
                  (result @ fromCharCode (parseInt (take 4 (drop (pos + 2) inp)) 16))
           else Inl UnexpectedEndInUnicodeEscape)"
    by (rule readString_loop_escape_unicode(2) [OF a' b])
next
  assume a: "quote \<noteq> 92 \<and> pos + 1 < length inp \<and> inp ! pos = 92" and b: "inp ! (pos + 1) = 120"
  from a have a': "quote \<noteq> 92" "pos + 1 < length inp" "inp ! pos = 92" by simp_all
  show "readStringLoop inp quote startPos pos result =
          (if pos + 4 \<le> length inp
           then readStringLoop inp quote startPos (pos + 4)
                  (result @ fromCharCode (parseInt (take 2 (drop (pos + 2) inp)) 16))
           else Inl UnexpectedEndInHexEscape)"
    by (rule readString_loop_escape_hex(1) [OF a' b])
  show "readTripleLoop inp quote startPos pos result =
          (if pos + 4 \<le> length inp
           then readTripleLoop inp quote startPos (pos + 4)
                  (result @ fromCharCode (parseInt (take 2 (drop (pos + 2) inp)) 16))
           else Inl UnexpectedEndInHexEscape)"
    by (rule readString_loop_escape_hex(2) [OF a' b])
next
  assume a: "(q = 39 \<or> q = 34) \<and> q \<notin> set b1 \<and> 92 \<notin> set b1 \<and> q \<notin> set b2 \<and> 92 \<notin> set b2
        \<and> ((c = 117 \<and> n = 4) \<or> (c = 120 \<and> n = 2))"
    and h: "length hex = n"
  from a have a': "q = 39 \<or> q = 34" "q \<notin> set b1" "92 \<notin> set b1" "q \<notin> set b2" "92 \<notin> set b2"
    "(c = 117 \<and> n = 4) \<or> (c = 120 \<and> n = 2)" by simp_all
  note st = tokenizeStep_string_escape [OF a' h, of pre post]
  show "tokenizeStep (pre @ [q] @ b1 @ [92, c] @ hex @ b2 @ [q] @ post) (length pre) =
          Inr (mkToken STRING (b1 @ fromCharCode (parseInt hex 16) @ b2) (length pre),
               length pre + length b1 + length b2 + n + 4)"
    by (rule st)
  show "tokenizeLoop (pre @ [q] @ b1 @ [92, c] @ hex @ b2 @ [q] @ post) (length pre) tokens =
            tokenizeLoop (pre @ [q] @ b1 @ [92, c] @ hex @ b2 @ [q] @ post)
              (length pre + length b1 + length b2 + n + 4)
              (tokens @ [mkToken STRING (b1 @ fromCharCode (parseInt hex 16) @ b2) (length pre)])"
    using tokenizeLoop_at_quote [OF a'(1), of pre "b1 @ [92, c] @ hex @ b2 @ [q] @ post" tokens] st
    by simp
next
  assume a: "(q = 39 \<or> q = 34) \<and> q \<notin> set b1 \<and> 92 \<notin> set b1 \<and> q \<notin> set b2 \<and> 92 \<notin> set b2
        \<and> ((c = 117 \<and> n = 4) \<or> (c = 120 \<and> n = 2))"
    and h: "length hex < n"
  from a have a': "q = 39 \<or> q = 34" "q \<notin> set b1" "92 \<notin> set b1"
    "(c = 117 \<and> n = 4) \<or> (c = 120 \<and> n = 2)" by simp_all
  note st = tokenizeStep_string_escape_cut [OF a' h, of pre]
  show "tokenizeStep (pre @ [q] @ b1 @ [92, c] @ hex) (length pre) =
          Inl (if c = 117 then UnexpectedEndInUnicodeEscape else UnexpectedEndInHexEscape)"
    by (rule st)
  show "tokenizeLoop (pre @ [q] @ b1 @ [92, c] @ hex) (length pre) tokens =
          Inl (if c = 117 then UnexpectedEndInUnicodeEscape else UnexpectedEndInHexEscape)"
    using tokenizeLoop_at_quote [OF a'(1), of pre "b1 @ [92, c] @ hex" tokens] st
    by simp
next
  show "length (fromCharCode (parseInt hex 16)) = 1"
    by (simp add: fromCharCode_def)
qed

lemma parseInt_zz41: "parseInt [122, 122, 52, 49] 16 = NaN"
  by code_simp

lemma parseInt_q1: "parseInt [113, 49] 16 = NaN"
  by code_simp

lemma parseInt_0041: "parseInt [48, 48, 52, 49] 16 = Fin 65"
  by code_simp

lemma toUint16_NaN: "toUint16 NaN = 0"
  by (simp add: toUint16_def)

lemma toUint16_65: "toUint16 (Fin 65) = 65"
  by (simp add: toUint16_def)

lemma tokenize_escape_examples:
  "tokenize ([91, 39, 97, 92, 117, 122, 122, 52, 49, 98, 39, 93]) =
     Inr [mkToken LBRACKET [91] 0, mkToken STRING [97, 0, 98] 1, mkToken RBRACKET [93] 11,
          mkToken EOF [] 12]"
  "tokenize ([34, 92, 117, 48, 48, 52, 49, 92, 120, 113, 49, 34]) =
     Inr [mkToken STRING [65, 0] 0, mkToken EOF [] 12]"
  "tokenize ([39, 39, 39, 92, 117, 34, 39, 39, 39, 120, 39, 39, 39]) =
     Inr [mkToken STRING [0, 120] 0, mkToken EOF [] 13]"
  "tokenize ([39, 97, 92, 117, 48, 48, 52]) = Inl UnexpectedEndInUnicodeEscape"
  "tokenize ([39, 92, 120, 52]) = Inl UnexpectedEndInHexEscape"
  by code_simp+


theorem escape_unicode_hex_total_witness:
  "tokenizeStep [91, 39, 97, 92, 117, 122, 122, 52, 49, 98, 39, 93] 1 =
     Inr (mkToken STRING [97, 0, 98] 1, 11)
   \<and> readEscapeSequence [92, 117, 122, 122, 52, 49] 39 0 = Inr ([0], 6)
   \<and> tokenizeStep [34, 92, 120, 113, 49, 34] 0 = Inr (mkToken STRING [0] 0, 6)
   \<and> tokenizeStep [39, 97, 92, 117, 48, 48, 52] 0 = Inl UnexpectedEndInUnicodeEscape
   \<and> tokenize [91, 39, 97, 92, 117, 122, 122, 52, 49, 98, 39, 93] =
     Inr [mkToken LBRACKET [91] 0, mkToken STRING [97, 0, 98] 1, mkToken RBRACKET [93] 11,
          mkToken EOF [] 12]
   \<and> tokenize [34, 92, 117, 48, 48, 52, 49, 92, 120, 113, 49, 34] =
     Inr [mkToken STRING [65, 0] 0, mkToken EOF [] 12]
   \<and> tokenize [39, 39, 39, 92, 117, 34, 39, 39, 39, 120, 39, 39, 39] =
     Inr [mkToken STRING [0, 120] 0, mkToken EOF [] 13]
   \<and> tokenize [39, 97, 92, 117, 48, 48, 52] = Inl UnexpectedEndInUnicodeEscape
   \<and> tokenize [39, 92, 120, 52] = Inl UnexpectedEndInHexEscape"
proof -
  have 1: "tokenizeStep [91, 39, 97, 92, 117, 122, 122, 52, 49, 98, 39, 93] 1 =
     Inr (mkToken STRING [97, 0, 98] 1, 11)"
    using escape_unicode_hex_total [where q = 39 and ?b1.0 = "[97]" and ?b2.0 = "[98]"
        and c = 117 and n = 4 and hex = "[122, 122, 52, 49]" and pre = "[91]" and post = "[93]"
        and pos = 0 and inp = "[]" and quote = 39]
    by (simp add: parseInt_zz41 toUint16_NaN fromCharCode_def)
  have 2: "readEscapeSequence [92, 117, 122, 122, 52, 49] 39 0 = Inr ([0], 6)"
    using escape_unicode_hex_total [where pos = 0 and inp = "[92, 117, 122, 122, 52, 49]"
        and quote = 39 and q = 0 and hex = "[]"]
    by (simp add: parseInt_zz41 toUint16_NaN fromCharCode_def)
  have 3: "tokenizeStep [34, 92, 120, 113, 49, 34] 0 = Inr (mkToken STRING [0] 0, 6)"
    using escape_unicode_hex_total [where q = 34 and ?b1.0 = "[]" and ?b2.0 = "[]"
        and c = 120 and n = 2 and hex = "[113, 49]" and pre = "[]" and post = "[]"
        and pos = 0 and inp = "[]" and quote = 39]
    by (simp add: parseInt_q1 toUint16_NaN fromCharCode_def)
  have 4: "tokenizeStep [39, 97, 92, 117, 48, 48, 52] 0 = Inl UnexpectedEndInUnicodeEscape"
    using escape_unicode_hex_total [where q = 39 and ?b1.0 = "[97]" and ?b2.0 = "[]"
        and c = 117 and n = 4 and hex = "[48, 48, 52]" and pre = "[]"
        and pos = 0 and inp = "[]" and quote = 39]
    by simp
  from 1 2 3 4 tokenize_escape_examples show ?thesis by blast
qed

section \<open>Number literals with a base prefix\<close>




















lemma base_prefix_sign:
  "tokenize (js ''-0x1F'') = Inr [mkToken NUMBER (js ''31'') 0, mkToken EOF [] 5]"
  by code_simp










section \<open>A minus sign without a number\<close>







lemma tokenizeLoop_at:
  assumes "pos < length inp" and "inp ! pos \<notin> {32, 9, 10, 13, 35}"
    and "tokenizeStep inp pos = Inl e"
  shows "tokenizeLoop inp pos tokens = Inl e"
  using tokenizeLoop_step [OF assms(1,2), of tokens] assms(3) by simp




section \<open>Unterminated triple-quoted strings\<close>

lemma readEscapeSequence_error:
  "readEscapeSequence inp quote pos = Inl e \<Longrightarrow>
     e \<in> {UnexpectedEndInEscape, UnexpectedEndInUnicodeEscape, UnexpectedEndInHexEscape}
     \<and> length inp < pos + 6"
  by (auto simp: readEscapeSequence_def Let_def readHexChars_eq split: if_splits)

lemma readTripleLoop_open:
  assumes lt: "pos < length inp"
    and nc: "\<not> (inp ! pos = quote \<and> pos + 2 < length inp \<and> inp ! (pos + 1) = quote
            \<and> inp ! (pos + 2) = quote)"
  shows "readTripleLoop inp quote startPos pos result =
     (if inp ! pos = 92 then
        (case readEscapeSequence inp quote pos of
           Inl e \<Rightarrow> Inl e
         | Inr (s, p) \<Rightarrow> readTripleLoop inp quote startPos p (result @ s))
      else readTripleLoop inp quote startPos (pos + 1) (result @ [inp ! pos]))"
  by (subst readTripleLoop.simps) (simp only: lt nc if_True if_False)

lemma readTripleLoop_unterminated:
  assumes "\<forall>i. pos \<le> i \<longrightarrow> i + 2 < length inp \<longrightarrow>
             \<not> (inp ! i = quote \<and> inp ! (i + 1) = quote \<and> inp ! (i + 2) = quote)"
  shows "readTripleLoop inp quote startPos pos result = Inl (UnterminatedTripleQuotedString startPos)
     \<or> (\<exists>i e. pos \<le> i \<and> i < length inp \<and> inp ! i = 92
            \<and> readEscapeSequence inp quote i = Inl e
            \<and> readTripleLoop inp quote startPos pos result = Inl e)"
  using assms
proof (induction inp quote startPos pos result rule: readTripleLoop.induct)
  case (1 inp quote startPos pos result)
  let ?closing = "inp ! pos = quote \<and> pos + 2 < length inp \<and> inp ! (pos + 1) = quote
            \<and> inp ! (pos + 2) = quote"
  show ?case
  proof (cases "pos < length inp")
    case False
    then have "readTripleLoop inp quote startPos pos result
        = Inl (UnterminatedTripleQuotedString startPos)"
      by (subst readTripleLoop.simps) simp
    then show ?thesis by simp
  next
    case lt: True
    from "1.prems" have nc: "\<not> ?closing" by auto
    show ?thesis
    proof (cases "inp ! pos = 92")
      case bs: True
      show ?thesis
      proof (cases "readEscapeSequence inp quote pos")
        case (Inl e)
        have "readTripleLoop inp quote startPos pos result = Inl e"
          using readTripleLoop_open [OF lt nc, of startPos result] bs Inl by simp
        with Inl lt bs show ?thesis by blast
      next
        case (Inr x)
        obtain s p where x: "x = (s, p)" by (cases x)
        from Inr x have lp: "pos < p" by (auto dest: readEscapeSequence_progress)
        have eq: "readTripleLoop inp quote startPos pos result
            = readTripleLoop inp quote startPos p (result @ s)"
          using readTripleLoop_open [OF lt nc, of startPos result] bs Inr x by simp
        from "1.prems" lp have "\<forall>i. p \<le> i \<longrightarrow> i + 2 < length inp \<longrightarrow>
             \<not> (inp ! i = quote \<and> inp ! (i + 1) = quote \<and> inp ! (i + 2) = quote)"
          by auto
        from "1.IH"(1) [OF lt nc bs Inr x [symmetric] this] lp eq
        show ?thesis by (metis less_imp_le_nat order_trans)
      qed
    next
      case nbs: False
      have eq: "readTripleLoop inp quote startPos pos result
            = readTripleLoop inp quote startPos (pos + 1) (result @ [inp ! pos])"
        using readTripleLoop_open [OF lt nc, of startPos result] nbs by simp
      from "1.prems" have "\<forall>i. pos + 1 \<le> i \<longrightarrow> i + 2 < length inp \<longrightarrow>
             \<not> (inp ! i = quote \<and> inp ! (i + 1) = quote \<and> inp ! (i + 2) = quote)"
        by auto
      from "1.IH"(2) [OF lt nc nbs this] eq
      show ?thesis by (metis add_leD1)
    qed
  qed
qed

lemma tokenizeStep_triple:
  assumes q: "q = 39 \<or> q = 34" and body: "body \<noteq> []"
  shows "tokenizeStep (pre @ [q, q, q] @ body) (length pre) =
     (case readTripleLoop (pre @ [q, q, q] @ body) q (length pre + 1) (length pre + 3) [] of
        Inl e \<Rightarrow> Inl e
      | Inr (str, p) \<Rightarrow> Inr (mkToken STRING str (length pre), p))"
proof -
  let ?inp = "pre @ [q, q, q] @ body"
  have c: "?inp ! length pre = q" by simp
  have c1: "?inp ! (length pre + 1) = q" by (simp add: nth_append)
  have c2: "?inp ! (length pre + 2) = q" by (simp add: nth_append)
  from body have l: "length pre + 1 + 2 < length ?inp" by (cases body) auto
  from c1 c2 l have "readString ?inp q (length pre + 1) =
      readTripleLoop ?inp q (length pre + 1) (length pre + 3) []"
    unfolding readString_def Let_def by (simp add: numeral_3_eq_3)
  with tokenizeStep_quote [of ?inp "length pre"] q c show ?thesis
    by simp
qed

lemma tokenize_triple_open:
  "tokenize [39, 39, 39, 92, 110, 97, 98, 99, 100] = Inl (UnterminatedTripleQuotedString 1)"
  by code_simp

lemma tokenize_triple_only: "tokenize [39, 39, 39] = Inl (UnterminatedString 3)"
  by code_simp

text \<open>
  C8, as amended. A quote character followed by two more of the same and at least one
  further character opens a triple-quoted string. When no three consecutive quote
  characters of that kind occur after the opening ones, tokenizing fails: with the
  unterminated-triple-quoted-string error, or, when a backslash stands within the last
  five characters of the input, possibly with the end-of-input error of that escape
  sequence instead. When every backslash has five characters after it, the error is the
  unterminated-triple-quoted-string error.
\<close>

theorem unterminated_triple_quoted:
  assumes q: "q = 39 \<or> q = 34" and body: "body \<noteq> []"
    and open_end: "\<forall>i. i + 2 < length body \<longrightarrow>
        \<not> (body ! i = q \<and> body ! (i + 1) = q \<and> body ! (i + 2) = q)"
  shows "\<exists>e. tokenizeStep (pre @ [q, q, q] @ body) (length pre) = Inl e
       \<and> tokenizeLoop (pre @ [q, q, q] @ body) (length pre) tokens = Inl e
       \<and> (pre = [] \<longrightarrow> tokenize ([q, q, q] @ body) = Inl e)
       \<and> ((\<exists>p. e = UnterminatedTripleQuotedString p)
          \<or> (\<exists>i<length body. body ! i = 92 \<and> length body < i + 6
                \<and> e \<in> {UnexpectedEndInEscape, UnexpectedEndInUnicodeEscape,
                         UnexpectedEndInHexEscape}))
       \<and> ((\<forall>i<length body. body ! i = 92 \<longrightarrow> i + 6 \<le> length body) \<longrightarrow>
            (\<exists>p. e = UnterminatedTripleQuotedString p))"
proof -
  let ?inp = "pre @ [q, q, q] @ body"
  let ?n = "length pre + 3"
  have nth: "?inp ! (?n + j) = body ! j" for j
    by (simp add: nth_append numeral_3_eq_3)
  have len: "length ?inp = ?n + length body" by simp
  have inv: "\<forall>i. ?n \<le> i \<longrightarrow> i + 2 < length ?inp \<longrightarrow>
      \<not> (?inp ! i = q \<and> ?inp ! (i + 1) = q \<and> ?inp ! (i + 2) = q)"
  proof (intro allI impI)
    fix i
    assume i: "?n \<le> i" and l: "i + 2 < length ?inp"
    define j where "j = i - ?n"
    with i have ij: "i = ?n + j" by simp
    from l len ij have "j + 2 < length body" by simp
    with open_end have "\<not> (body ! j = q \<and> body ! (j + 1) = q \<and> body ! (j + 2) = q)"
      by blast
    moreover have "?inp ! i = body ! j" unfolding ij by (rule nth)
    moreover have "?inp ! (i + 1) = body ! (j + 1)"
      using nth [of "j + 1"] unfolding ij by (simp add: ac_simps)
    moreover have "?inp ! (i + 2) = body ! (j + 2)"
      using nth [of "j + 2"] unfolding ij by (simp add: ac_simps)
    ultimately show "\<not> (?inp ! i = q \<and> ?inp ! (i + 1) = q \<and> ?inp ! (i + 2) = q)"
      by simp
  qed
  have at: "length pre < length ?inp" "?inp ! length pre \<notin> {32, 9, 10, 13, 35}"
    using q by auto
  have loop: "tokenizeLoop ?inp (length pre) tokens = Inl e"
    if "tokenizeStep ?inp (length pre) = Inl e" for e
    using tokenizeLoop_at [OF at that] .
  have whole: "pre = [] \<longrightarrow> tokenize ([q, q, q] @ body) = Inl e"
    if "tokenizeLoop ?inp (length pre) tokens = Inl e"
       "tokenizeStep ?inp (length pre) = Inl e" for e
  proof
    assume "pre = []"
    with that(2) have "tokenizeStep ([q, q, q] @ body) 0 = Inl e" by simp
    moreover from q have "([q, q, q] @ body) ! 0 \<notin> {32, 9, 10, 13, 35}" by auto
    ultimately have "tokenizeLoop ([q, q, q] @ body) 0 [] = Inl e"
      by (intro tokenizeLoop_at) simp_all
    then show "tokenize ([q, q, q] @ body) = Inl e" by (simp add: tokenize_def)
  qed
  from readTripleLoop_unterminated [OF inv, of "length pre + 1" "[]"]
  consider
    (unterminated) "readTripleLoop ?inp q (length pre + 1) ?n []
        = Inl (UnterminatedTripleQuotedString (length pre + 1))"
  | (escape) i e where "?n \<le> i" "i < length ?inp" "?inp ! i = 92"
      "readEscapeSequence ?inp q i = Inl e" "readTripleLoop ?inp q (length pre + 1) ?n [] = Inl e"
    by blast
  then show ?thesis
  proof cases
    case unterminated
    with tokenizeStep_triple [OF q body, of pre]
    have s: "tokenizeStep ?inp (length pre) = Inl (UnterminatedTripleQuotedString (length pre + 1))"
      by simp
    from loop [OF s] whole [OF loop [OF s] s] s show ?thesis by blast
  next
    case escape
    with tokenizeStep_triple [OF q body, of pre]
    have s: "tokenizeStep ?inp (length pre) = Inl e" by simp
    define j where "j = i - ?n"
    with escape(1) have ij: "i = ?n + j" by simp
    from escape(2) len ij have j: "j < length body" by simp
    from escape(3) nth [of j] ij have b: "body ! j = 92" by simp
    from readEscapeSequence_error [OF escape(4)] len ij
    have e: "e \<in> {UnexpectedEndInEscape, UnexpectedEndInUnicodeEscape, UnexpectedEndInHexEscape}"
      and cut: "length body < j + 6" by simp_all
    from j b cut have no: "\<not> (\<forall>i<length body. body ! i = 92 \<longrightarrow> i + 6 \<le> length body)"
      by (auto simp: not_le)
    from j b cut e have "\<exists>i<length body. body ! i = 92 \<and> length body < i + 6
                \<and> e \<in> {UnexpectedEndInEscape, UnexpectedEndInUnicodeEscape,
                         UnexpectedEndInHexEscape}"
      by blast
    with loop [OF s] whole [OF loop [OF s] s] s no show ?thesis by blast
  qed
qed

theorem unterminated_triple_quoted_witness:
  "tokenize [39, 39, 39, 92, 110, 97, 98, 99, 100] = Inl (UnterminatedTripleQuotedString 1)
   \<and> (\<exists>p. tokenizeStep ([91] @ [39, 39, 39] @ [92, 110, 97, 98, 99, 100]) 1
            = Inl (UnterminatedTripleQuotedString p))"
proof -
  let ?body = "[92, 110, 97, 98, 99, 100] :: jsstring"
  have 1: "(39::nat) = 39 \<or> (39::nat) = 34" by simp
  have 2: "?body \<noteq> []" by simp
  have "39 \<notin> set ?body" by simp
  then have 3: "\<forall>i. i + 2 < length ?body \<longrightarrow>
        \<not> (?body ! i = 39 \<and> ?body ! (i + 1) = 39 \<and> ?body ! (i + 2) = 39)"
    by (metis add_lessD1 nth_mem)
  have 4: "\<forall>i<length ?body. ?body ! i = 92 \<longrightarrow> i + 6 \<le> length ?body"
    by (simp add: nth_Cons split: nat.splits)
  from unterminated_triple_quoted [OF 1 2 3, of "[91]" "[]"] 4
  have "\<exists>p. tokenizeStep ([91] @ [39, 39, 39] @ ?body) (length [91::nat])
            = Inl (UnterminatedTripleQuotedString p)"
    by blast
  with tokenize_triple_open show ?thesis by simp
qed

theorem escape_at_end_counterexample:
  "tokenize ([39, 39, 39] @ js ''abc'' @ [92]) = Inl UnexpectedEndInEscape"
  by code_simp

end
